theory Spec2Isabelle
  imports Complex_Main "HOL-Library.Multiset"
begin

section \<open>Values of the platform\<close>

text \<open>
  The service \<open>src/services/reqline/parse.js\<close> reads one field, \<open>reqline\<close>, validates it,
  builds a request description and hands it to the HTTP transport. Strings are lists of
  8-bit characters (the ASCII and Latin-1 code units); the length of a string is the
  number of its code units, as in the source. \<open>JSON.parse\<close> and \<open>encodeURIComponent\<close>
  are functions of the platform: the service takes them as parameters, with \<open>None\<close> for
  a raised exception.

  What \<open>JSON.parse\<close> returns is a JavaScript value. An object is kept as the list of its
  own entries in enumeration order, which is what \<open>Object.entries\<close> reads. The payload of
  a number is never inspected by the service.
\<close>

datatype json =
    JNull
  | JBool bool
  | JNumber real
  | JString string
  | JArray "json list"
  | JObject "(string \<times> json) list"

text \<open>
  The argument \<open>serviceData.reqline\<close> may be any value. The service only asks whether it
  is falsy and whether it is a string, so a value that is not a string is kept as its
  truthiness.
\<close>

datatype reqline_arg =
    NotString bool  \<comment> \<open>a value that is not a string; the flag is its truthiness\<close>
  | Str string

text \<open>
  The message catalogue \<open>messages/req-line\<close> is not part of the sources at hand. An error
  records which entry of the catalogue it was raised with; a message computed in the
  service itself is kept as its text.
\<close>

datatype message =
    MISSING_REQLINE
  | INVALID_SYNTAX
  | INVALID_REQLINE_FORMAT
  | INVALID_SPACING_AROUND_PIPE
  | HTTP_NOT_FIRST
  | URL_NOT_SECOND
  | EMPTY_HTTP_SECTION
  | MULTIPLE_SPACES_FOUND
  | MISSING_SPACE_AFTER_KEYWORD
  | MISSING_HTTP_KEYWORD
  | HTTP_METHOD_NOT_UPPERCASE
  | INVALID_HTTP_METHOD
  | EMPTY_URL_SECTION
  | MISSING_URL_KEYWORD
  | INVALID_URL_FORMAT
  | KEYWORDS_NOT_UPPERCASE
  | INVALID_KEYWORD
  | DUPLICATE_SECTION
  | EMPTY_HEADERS_SECTION
  | EMPTY_QUERY_SECTION
  | EMPTY_BODY_SECTION
  | INVALID_JSON_FORMAT_HEADERS
  | INVALID_JSON_FORMAT_QUERY
  | Text string

text \<open>
  Modelled from the spec: \<open>throwAppError\<close> of \<open>@app-core/errors\<close> is not part of the
  sources at hand. It aborts the call with an application error that carries the message
  and the status code it was given.
\<close>

datatype app_error = AppError (message: message) (statusCode: nat)

definition throwAppError :: "message \<Rightarrow> nat \<Rightarrow> app_error + 'a" where
  "throwAppError m c = Inl (AppError m c)"

record request =
  query :: json
  body :: json
  headers :: json
  fullUrl :: string

section \<open>String operations of the platform\<close>

definition startsWith :: "string \<Rightarrow> string \<Rightarrow> bool" where
  \<comment> \<open>\<open>s.startsWith(p)\<close>\<close>
  "startsWith p s = (take (length p) s = p)"

definition endsWith :: "string \<Rightarrow> string \<Rightarrow> bool" where
  \<comment> \<open>\<open>s.endsWith(p)\<close>\<close>
  "endsWith p s = (length p \<le> length s \<and> drop (length s - length p) s = p)"

definition slice_inner :: "string \<Rightarrow> string" where
  \<comment> \<open>\<open>s.slice(1, -1)\<close>: the code units from index 1 up to the last one, excluded\<close>
  "slice_inner s = take (length s - 2) (drop 1 s)"

definition isWhiteSpace :: "char \<Rightarrow> bool" where
  \<comment> \<open>the white space and line terminators among the 8-bit code units: TAB, LF, VT, FF,
      CR, SP and NBSP\<close>
  "isWhiteSpace c =
     (c = CHR 0x09 \<or> c = CHR 0x0A \<or> c = CHR 0x0B \<or> c = CHR 0x0C \<or> c = CHR 0x0D
      \<or> c = CHR 0x20 \<or> c = CHR 0xA0)"

definition trim :: "string \<Rightarrow> string" where
  \<comment> \<open>\<open>s.trim()\<close>\<close>
  "trim s = rev (dropWhile isWhiteSpace (rev (dropWhile isWhiteSpace s)))"

fun js_includes :: "string \<Rightarrow> string \<Rightarrow> bool" where
  \<comment> \<open>\<open>s.includes(p)\<close>\<close>
  "js_includes p [] = (p = [])"
| "js_includes p (c # cs) = (startsWith p (c # cs) \<or> js_includes p cs)"

fun indexOf :: "char \<Rightarrow> string \<Rightarrow> nat option" where
  \<comment> \<open>\<open>s.indexOf(c)\<close>; \<open>None\<close> is the result -1\<close>
  "indexOf c [] = None"
| "indexOf c (x # xs) = (if x = c then Some 0 else map_option Suc (indexOf c xs))"

definition codeUnits :: "string \<Rightarrow> nat list" where
  \<comment> \<open>the code units of a string, as numbers\<close>
  "codeUnits s = map of_char s"

definition toUpperCase_unit :: "char \<Rightarrow> nat list" where
  \<comment> \<open>the upper case of one 8-bit code unit. The result may leave the 8-bit code units:
      the micro sign U+00B5 becomes U+039C, the letter U+00FF becomes U+0178, and the
      sharp s U+00DF becomes two letters S.\<close>
  "toUpperCase_unit c =
     (let n = (of_char c :: nat) in
      if 97 \<le> n \<and> n \<le> 122 then [n - 32]
      else if n = 181 then [924]
      else if n = 223 then [83, 83]
      else if 224 \<le> n \<and> n \<le> 254 \<and> n \<noteq> 247 then [n - 32]
      else if n = 255 then [376]
      else [n])"

definition toUpperCase :: "string \<Rightarrow> nat list" where
  \<comment> \<open>the code units of \<open>s.toUpperCase()\<close>. The service only compares a text with its
      upper case: \<open>x !== x.toUpperCase()\<close> is \<open>codeUnits x \<noteq> toUpperCase x\<close>.\<close>
  "toUpperCase s = concat (map toUpperCase_unit s)"

fun split_pipe :: "string \<Rightarrow> string list" where
  \<comment> \<open>\<open>s.split(' | ')\<close>: cut at every occurrence of the separator, found from the left and
      not overlapping\<close>
  "split_pipe [] = [[]]"
| "split_pipe (c # cs) =
     (if startsWith '' | '' (c # cs) then [] # split_pipe (drop 2 cs)
      else (case split_pipe cs of [] \<Rightarrow> [[c]] | p # ps \<Rightarrow> (c # p) # ps))"

fun join :: "string \<Rightarrow> string list \<Rightarrow> string" where
  \<comment> \<open>\<open>xs.join(sep)\<close>\<close>
  "join sep [] = []"
| "join sep [x] = x"
| "join sep (x # y # ys) = x @ sep @ join sep (y # ys)"

section \<open>JavaScript values\<close>

definition typeof_object :: "json \<Rightarrow> bool" where
  \<comment> \<open>\<open>typeof v === 'object'\<close>; \<open>null\<close> has this type too\<close>
  "typeof_object v = (case v of JNull \<Rightarrow> True | JArray _ \<Rightarrow> True | JObject _ \<Rightarrow> True | _ \<Rightarrow> False)"

definition isArray :: "json \<Rightarrow> bool" where
  \<comment> \<open>\<open>Array.isArray(v)\<close>\<close>
  "isArray v = (case v of JArray _ \<Rightarrow> True | _ \<Rightarrow> False)"

fun decimal :: "nat \<Rightarrow> string" where
  \<comment> \<open>an array index as a property key: the number in decimal\<close>
  "decimal n =
     (if n < 10 then [char_of (48 + n)] else decimal (n div 10) @ [char_of (48 + n mod 10)])"

definition Object_entries :: "json \<Rightarrow> (string \<times> json) list option" where
  \<comment> \<open>\<open>Object.entries(v)\<close>: the entries of an object; on \<open>null\<close> it raises a TypeError
      (\<open>None\<close>). An array and a string have one entry for each index, a number and a
      boolean have none. The service calls it on \<open>null\<close> or an object only, after its
      check of the type.\<close>
  "Object_entries v =
     (case v of
        JNull \<Rightarrow> None
      | JObject es \<Rightarrow> Some es
      | JArray xs \<Rightarrow> Some (zip (map decimal [0..<length xs]) xs)
      | JString s \<Rightarrow> Some (zip (map decimal [0..<length s]) (map (\<lambda>c. JString [c]) s))
      | _ \<Rightarrow> Some [])"

fun Map_set :: "(string \<times> json) list \<Rightarrow> string \<Rightarrow> json \<Rightarrow> (string \<times> json) list" where
  \<comment> \<open>\<open>m.set(k, v)\<close> on a Map kept in insertion order\<close>
  "Map_set [] k v = [(k, v)]"
| "Map_set ((k', v') # m) k v =
     (if k' = k then (k, v) # m else (k', v') # Map_set m k v)"

definition new_Map :: "(string \<times> json) list \<Rightarrow> (string \<times> json) list" where
  \<comment> \<open>\<open>new Map(entries)\<close>\<close>
  "new_Map es = foldl (\<lambda>m (k, v). Map_set m k v) [] es"


section \<open>The service \<open>parse\<close>\<close>

subsection \<open>Spacing checks\<close>

fun consecutiveSpaces :: "string \<Rightarrow> bool" where
  \<comment> \<open>the loop \<open>for (j = 0; j < part.length - 1; j++)\<close> that looks for two spaces in a row\<close>
  "consecutiveSpaces (c # d # cs) =
     ((c = CHR '' '' \<and> d = CHR '' '') \<or> consecutiveSpaces (d # cs))"
| "consecutiveSpaces _ = False"

definition pipeViolation :: "string \<Rightarrow> nat \<Rightarrow> bool" where
  \<comment> \<open>the body of the loop over the pipe delimiters, at index \<open>j\<close>\<close>
  "pipeViolation s j =
     (s ! j = CHR ''|'' \<and>
        ((j = 0 \<or> s ! (j - 1) \<noteq> CHR '' '')
         \<or> (j = length s - 1 \<or> s ! (j + 1) \<noteq> CHR '' '')
         \<or> (2 \<le> j \<and> s ! (j - 2) = CHR '' '')
         \<or> (j + 2 < length s \<and> s ! (j + 2) = CHR '' '')))"

definition pipeSpacingError :: "string \<Rightarrow> bool" where
  \<comment> \<open>the three checks of the pipe delimiters; each raises the same error\<close>
  "pipeSpacingError reqlineContent =
     (js_includes ''  |'' reqlineContent
      \<or> js_includes ''|  '' reqlineContent
      \<or> list_ex (pipeViolation reqlineContent) [0..<length reqlineContent])"

subsection \<open>The HTTP and URL sections\<close>

definition http_section :: "string \<Rightarrow> app_error + string" where
  \<comment> \<open>the validation of the first section; the result is \<open>method\<close>\<close>
  "http_section httpPart =
     (if httpPart = [] \<or> trim httpPart = [] then throwAppError EMPTY_HTTP_SECTION 400
      else if consecutiveSpaces httpPart then throwAppError MULTIPLE_SPACES_FOUND 400
      else
        let trimmedHttpPart = trim httpPart in
        case indexOf CHR '' '' trimmedHttpPart of
          None \<Rightarrow> throwAppError MISSING_SPACE_AFTER_KEYWORD 400
        | Some httpSpaceIndex \<Rightarrow>
            let httpKeyword = take httpSpaceIndex trimmedHttpPart;
                method = drop (httpSpaceIndex + 1) trimmedHttpPart
            in
              if httpKeyword \<noteq> ''HTTP'' then throwAppError MISSING_HTTP_KEYWORD 400
              else if method = [] then throwAppError MISSING_SPACE_AFTER_KEYWORD 400
              else if js_includes '' '' method then throwAppError MULTIPLE_SPACES_FOUND 400
              else if codeUnits method \<noteq> toUpperCase method then
                throwAppError HTTP_METHOD_NOT_UPPERCASE 400
              else if method \<noteq> ''GET'' \<and> method \<noteq> ''POST'' then
                throwAppError INVALID_HTTP_METHOD 400
              else Inr method)"

definition url_section :: "string \<Rightarrow> app_error + string" where
  \<comment> \<open>the validation of the second section; the result is \<open>url\<close>\<close>
  "url_section urlPart =
     (if urlPart = [] \<or> trim urlPart = [] then throwAppError EMPTY_URL_SECTION 400
      else if consecutiveSpaces urlPart then throwAppError MULTIPLE_SPACES_FOUND 400
      else
        let trimmedUrlPart = trim urlPart in
        case indexOf CHR '' '' trimmedUrlPart of
          None \<Rightarrow> throwAppError MISSING_SPACE_AFTER_KEYWORD 400
        | Some urlSpaceIndex \<Rightarrow>
            let urlKeyword = take urlSpaceIndex trimmedUrlPart;
                url = drop (urlSpaceIndex + 1) trimmedUrlPart
            in
              if urlKeyword \<noteq> ''URL'' then throwAppError MISSING_URL_KEYWORD 400
              else if url = [] then throwAppError MISSING_SPACE_AFTER_KEYWORD 400
              else if js_includes '' '' url then throwAppError MULTIPLE_SPACES_FOUND 400
              else if \<not> ((startsWith ''http://'' url \<or> startsWith ''https://'' url)
                         \<and> length url > 8) then
                throwAppError INVALID_URL_FORMAT 400
              else Inr url)"

subsection \<open>The optional sections\<close>

text \<open>
  The variables that the callback of \<open>rest.forEach\<close> reads and writes: the object
  \<open>request\<close>, the variable \<open>fullUrl\<close> and the set \<open>processedSections\<close>.
\<close>

record locals =
  req :: request
  fullUrl_var :: string
  processedSections :: "string set"

text \<open>
  What is thrown inside the \<open>try\<close> block: an application error, or an exception of the
  platform (a SyntaxError of \<open>JSON.parse\<close>, a TypeError, a URIError).
\<close>

datatype thrown = Application app_error | Platform

definition queryParts ::
  "(json \<Rightarrow> string option) \<Rightarrow> (string \<times> json) list \<Rightarrow> string list option" where
  \<comment> \<open>\<open>params.forEach((v, k) => queryParts.push(`${k}=${encodeURIComponent(v)}`))\<close>;
      \<open>None\<close> when an encoding raises\<close>
  "queryParts encodeURIComponent params =
     those (map (\<lambda>(k, v). map_option (\<lambda>e. k @ ''='' @ e) (encodeURIComponent v)) params)"

definition appendQuery :: "string \<Rightarrow> string \<Rightarrow> string" where
  \<comment> \<open>the new value of \<open>fullUrl\<close> in
      \<open>fullUrl += fullUrl.includes('?') ? `&${queryString}` : `?${queryString}`\<close>\<close>
  "appendQuery u queryString =
     u @ (if js_includes ''?'' u then ''&'' @ queryString else ''?'' @ queryString)"

definition try_block ::
  "(string \<Rightarrow> json option) \<Rightarrow> (json \<Rightarrow> string option) \<Rightarrow> string \<Rightarrow> string \<Rightarrow> locals
     \<Rightarrow> thrown + locals" where
  \<comment> \<open>the \<open>switch\<close> inside \<open>try\<close>. \<open>JSON_parse\<close> and \<open>encodeURIComponent\<close> are the platform's
      functions; \<open>None\<close> is a raised exception.\<close>
  "try_block JSON_parse encodeURIComponent keyword val st =
     (if keyword = ''HEADERS'' then
        (case JSON_parse val of
           None \<Rightarrow> Inl Platform
         | Some h \<Rightarrow>
             if \<not> typeof_object h \<or> isArray h then
               Inl (Application (AppError INVALID_JSON_FORMAT_HEADERS 400))
             else Inr (st\<lparr>req := (req st)\<lparr>headers := h\<rparr>\<rparr>))
      else if keyword = ''QUERY'' then
        (case JSON_parse val of
           None \<Rightarrow> Inl Platform
         | Some q \<Rightarrow>
             if \<not> typeof_object q \<or> isArray q then
               Inl (Application (AppError INVALID_JSON_FORMAT_QUERY 400))
             else
               (case Object_entries q of
                  None \<Rightarrow> Inl Platform
                | Some entries \<Rightarrow>
                    (case queryParts encodeURIComponent (new_Map entries) of
                       None \<Rightarrow> Inl Platform
                     | Some parts \<Rightarrow>
                         let queryString = join ''&'' parts;
                             st1 = st\<lparr>req := (req st)\<lparr>query := q\<rparr>\<rparr>
                         in
                           if queryString \<noteq> [] then
                             let fullUrl' = appendQuery (fullUrl_var st1) queryString in Inr (st1\<lparr>fullUrl_var := fullUrl',
                                         req := (req st1)\<lparr>fullUrl := fullUrl'\<rparr>\<rparr>)
                           else Inr st1)))
      else if keyword = ''BODY'' then
        (case JSON_parse val of
           None \<Rightarrow> Inl Platform
         | Some b \<Rightarrow> Inr (st\<lparr>req := (req st)\<lparr>body := b\<rparr>\<rparr>))
      else Inl (Application (AppError INVALID_KEYWORD 400)))"

definition optional_section ::
  "(string \<Rightarrow> json option) \<Rightarrow> (json \<Rightarrow> string option) \<Rightarrow> string \<Rightarrow> locals
     \<Rightarrow> app_error + locals" where
  \<comment> \<open>the callback of \<open>rest.forEach\<close>, applied to one \<open>part\<close>\<close>
  "optional_section JSON_parse encodeURIComponent part st =
     (if part = [] \<or> trim part = [] then throwAppError INVALID_SYNTAX 400
      else if consecutiveSpaces part then throwAppError MULTIPLE_SPACES_FOUND 400
      else
        let trimmedPart = trim part in
        case indexOf CHR '' '' trimmedPart of
          None \<Rightarrow> throwAppError MISSING_SPACE_AFTER_KEYWORD 400
        | Some spaceIndex \<Rightarrow>
            let keyword = take spaceIndex trimmedPart;
                val = drop (spaceIndex + 1) trimmedPart
            in
              if codeUnits keyword \<noteq> toUpperCase keyword then
                throwAppError KEYWORDS_NOT_UPPERCASE 400
              else if keyword \<noteq> ''HEADERS'' \<and> keyword \<noteq> ''QUERY'' \<and> keyword \<noteq> ''BODY'' then
                throwAppError INVALID_KEYWORD 400
              else if keyword \<in> processedSections st then
                throwAppError DUPLICATE_SECTION 400
              else
                let st1 = st\<lparr>processedSections := insert keyword (processedSections st)\<rparr> in
                if val = [] \<or> trim val = [] then
                  (if keyword = ''HEADERS'' then throwAppError EMPTY_HEADERS_SECTION 400
                   else if keyword = ''QUERY'' then throwAppError EMPTY_QUERY_SECTION 400
                   else if keyword = ''BODY'' then throwAppError EMPTY_BODY_SECTION 400
                   else throwAppError INVALID_KEYWORD 400)
                else
                  (case try_block JSON_parse encodeURIComponent keyword val st1 of
                     Inr st2 \<Rightarrow> Inr st2
                   | Inl (Application e) \<Rightarrow> Inl e
                   | Inl Platform \<Rightarrow>
                       throwAppError
                         (Text (''Invalid JSON format in '' @ keyword @ '' section'')) 400))"

fun forEach_rest ::
  "(string \<Rightarrow> json option) \<Rightarrow> (json \<Rightarrow> string option) \<Rightarrow> string list \<Rightarrow> locals
     \<Rightarrow> app_error + locals" where
  \<comment> \<open>\<open>rest.forEach\<close>: the sections in order, stopping at the first error\<close>
  "forEach_rest JSON_parse encodeURIComponent [] st = Inr st"
| "forEach_rest JSON_parse encodeURIComponent (part # parts) st =
     (case optional_section JSON_parse encodeURIComponent part st of
        Inl e \<Rightarrow> Inl e
      | Inr st' \<Rightarrow> forEach_rest JSON_parse encodeURIComponent parts st')"

text \<open>
  The keyword and the value that the callback reads from a section: the text before the
  first space of the trimmed section, and the text after it. Without a space
  \<open>indexOf\<close> is -1, and \<open>substring(0, -1)\<close> is the empty string.
\<close>

definition keyword_of :: "string \<Rightarrow> string" where
  "keyword_of part =
     (case indexOf CHR '' '' (trim part) of
        None \<Rightarrow> []
      | Some spaceIndex \<Rightarrow> take spaceIndex (trim part))"

definition value_of :: "string \<Rightarrow> string" where
  "value_of part =
     (case indexOf CHR '' '' (trim part) of
        None \<Rightarrow> trim part
      | Some spaceIndex \<Rightarrow> drop (spaceIndex + 1) (trim part))"

subsection \<open>Validation and building\<close>

definition reqlineContent_of :: "string \<Rightarrow> string" where
  \<comment> \<open>\<open>reqline.slice(1, -1).trim()\<close>\<close>
  "reqlineContent_of reqline = trim (slice_inner reqline)"

definition initial_locals :: "string \<Rightarrow> locals" where
  \<comment> \<open>the variables once the URL is accepted: \<open>request\<close> with its three empty objects and
      \<open>fullUrl = url\<close>, and no section processed\<close>
  "initial_locals url =
     \<lparr>req = \<lparr>query = JObject [], body = JObject [], headers = JObject [], fullUrl = url\<rparr>,
      fullUrl_var = url, processedSections = {}\<rparr>"

definition compile ::
  "(string \<Rightarrow> json option) \<Rightarrow> (json \<Rightarrow> string option) \<Rightarrow> reqline_arg
     \<Rightarrow> app_error + (string \<times> request)" where
  \<comment> \<open>the service up to the call of the transport: the result is \<open>method\<close> and \<open>request\<close>\<close>
  "compile JSON_parse encodeURIComponent arg =
     (case arg of
        NotString truthy \<Rightarrow>
          if \<not> truthy then throwAppError MISSING_REQLINE 400
          else throwAppError INVALID_SYNTAX 400
      | Str reqline \<Rightarrow>
          if reqline = [] then throwAppError MISSING_REQLINE 400
          else if \<not> startsWith ''['' reqline \<or> \<not> endsWith '']'' reqline then
            throwAppError INVALID_REQLINE_FORMAT 400
          else
            let reqlineContent = reqlineContent_of reqline in
            if reqlineContent = [] then throwAppError INVALID_SYNTAX 400
            else if pipeSpacingError reqlineContent then
              throwAppError INVALID_SPACING_AROUND_PIPE 400
            else
              (case split_pipe reqlineContent of
                 httpPart # urlPart # rest \<Rightarrow>
                   if httpPart = [] \<or> \<not> startsWith ''HTTP '' (trim httpPart) then
                     throwAppError HTTP_NOT_FIRST 400
                   else if urlPart = [] \<or> \<not> startsWith ''URL '' (trim urlPart) then
                     throwAppError URL_NOT_SECOND 400
                   else
                     (case http_section httpPart of
                        Inl e \<Rightarrow> Inl e
                      | Inr method \<Rightarrow>
                          (case url_section urlPart of
                             Inl e \<Rightarrow> Inl e
                           | Inr url \<Rightarrow>
                               (case forEach_rest JSON_parse encodeURIComponent rest
                                       (initial_locals url) of
                                  Inl e \<Rightarrow> Inl e
                                | Inr st \<Rightarrow> Inr (method, req st))))
               | _ \<Rightarrow> throwAppError INVALID_SYNTAX 400))"

subsection \<open>The transport\<close>

record http_args =
  arg_method :: string
  arg_url :: string
  arg_data :: json
  arg_headers :: json

record transport_result =
  res_data :: json
  res_status :: nat

text \<open>
  A failure of the transport: \<open>error.message\<close>, and the status of \<open>error.response\<close> when
  the error has a response.
\<close>

record transport_error =
  err_message :: string
  err_response_status :: "nat option"

record response =
  httpStatus :: nat
  duration :: int
  requestStartTimestamp :: int
  requestStopTimestamp :: int
  responseData :: json

record execution =
  exec_request :: request
  exec_response :: response

definition parse ::
  "(string \<Rightarrow> json option) \<Rightarrow> (json \<Rightarrow> string option)
     \<Rightarrow> (http_args \<Rightarrow> transport_error + transport_result) \<Rightarrow> int \<Rightarrow> int
     \<Rightarrow> reqline_arg \<Rightarrow> app_error + execution" where
  \<comment> \<open>the whole service. \<open>httpRequest\<close> is the transport (\<open>Inl\<close> when it rejects); the two
      integers are the readings of \<open>Date.now()\<close> before and after the call.\<close>
  "parse JSON_parse encodeURIComponent httpRequest now_start now_stop arg =
     (case compile JSON_parse encodeURIComponent arg of
        Inl e \<Rightarrow> Inl e
      | Inr (method, request) \<Rightarrow>
          (case httpRequest \<lparr>arg_method = method, arg_url = fullUrl request,
                             arg_data = body request, arg_headers = headers request\<rparr> of
             Inl error \<Rightarrow>
               throwAppError (Text (err_message error))
                 (case err_response_status error of Some s \<Rightarrow> s | None \<Rightarrow> 500)
           | Inr result \<Rightarrow>
               Inr \<lparr>exec_request = request,
                    exec_response =
                      \<lparr>httpStatus = res_status result,
                       duration = now_stop - now_start,
                       requestStartTimestamp = now_start,
                       requestStopTimestamp = now_stop,
                       responseData = res_data result\<rparr>\<rparr>))"

text \<open>
  The values of \<open>JSON.parse\<close> and of \<open>encodeURIComponent\<close> at the texts used in the
  examples below.
\<close>

definition JSON_parse_sample :: \<open>string \<Rightarrow> json option\<close> where
  \<open>JSON_parse_sample s =
     (if s = ''{"a":"b c"}'' then Some (JObject [(''a'', JString ''b c'')])
      else if s = ''{"a":"1"}'' then Some (JObject [(''a'', JString ''1'')])
      else if s = ''{"h":"1"}'' then Some (JObject [(''h'', JString ''1'')])
      else if s = ''{"a b":"1"}'' then Some (JObject [(''a b'', JString ''1'')])
      else if s = ''{"x y":"2"}'' then Some (JObject [(''x y'', JString ''2'')])
      else if s = ''{}'' then Some (JObject [])
      else if s = ''null'' then Some JNull
      else if s = ''[1,2]'' then Some (JArray [JNumber 1, JNumber 2])
      else None)\<close>

definition encodeURIComponent_sample :: "json \<Rightarrow> string option" where
  "encodeURIComponent_sample v =
     (if v = JString ''b c'' then Some ''b%20c''
      else if v = JString ''1'' then Some ''1''
      else if v = JString ''2'' then Some ''2''
      else None)"

section \<open>Errors of the stages\<close>

lemma startsWith_iff: "startsWith p s \<longleftrightarrow> (\<exists>r. s = p @ r)"
proof
  assume "startsWith p s"
  then have "take (length p) s = p" by (simp add: startsWith_def)
  then have "s = p @ drop (length p) s" by (metis append_take_drop_id)
  then show "\<exists>r. s = p @ r" ..
next
  assume "\<exists>r. s = p @ r"
  then show "startsWith p s" by (auto simp: startsWith_def)
qed

lemma http_section_errors:
  "http_section h = Inl e \<Longrightarrow>
     statusCode e = 400 \<and> message e \<noteq> MISSING_URL_KEYWORD"
  by (auto simp: http_section_def throwAppError_def Let_def split: option.splits if_splits)

lemma url_section_errors:
  "url_section u = Inl e \<Longrightarrow>
     statusCode e = 400 \<and> message e \<noteq> MISSING_HTTP_KEYWORD"
  by (auto simp: url_section_def throwAppError_def Let_def split: option.splits if_splits)

lemma http_keyword_extracted:
  assumes "startsWith ''HTTP '' t"
  shows "indexOf CHR '' '' t = Some 4 \<and> take 4 t = ''HTTP''"
proof -
  from assms obtain r where "t = ''HTTP '' @ r" by (auto simp: startsWith_iff)
  then show ?thesis by simp
qed

lemma url_keyword_extracted:
  assumes "startsWith ''URL '' t"
  shows "indexOf CHR '' '' t = Some 3 \<and> take 3 t = ''URL''"
proof -
  from assms obtain r where "t = ''URL '' @ r" by (auto simp: startsWith_iff)
  then show ?thesis by simp
qed

lemma http_section_keyword:
  "startsWith ''HTTP '' (trim h) \<Longrightarrow> http_section h = Inl e \<Longrightarrow> message e \<noteq> MISSING_HTTP_KEYWORD"
  by (auto simp: http_section_def throwAppError_def Let_def dest!: http_keyword_extracted
      split: option.splits if_splits)

lemma url_section_keyword:
  "startsWith ''URL '' (trim u) \<Longrightarrow> url_section u = Inl e \<Longrightarrow> message e \<noteq> MISSING_URL_KEYWORD"
  by (auto simp: url_section_def throwAppError_def Let_def dest!: url_keyword_extracted
      split: option.splits if_splits)

lemma try_block_errors:
  "try_block jp enc k v st = Inl (Application e) \<Longrightarrow>
     statusCode e = 400 \<and> message e \<noteq> MISSING_HTTP_KEYWORD \<and> message e \<noteq> MISSING_URL_KEYWORD"
  by (auto simp: try_block_def Let_def split: option.splits if_splits)

lemma optional_section_errors:
  "optional_section jp enc p st = Inl e \<Longrightarrow>
     statusCode e = 400 \<and> message e \<noteq> MISSING_HTTP_KEYWORD \<and> message e \<noteq> MISSING_URL_KEYWORD"
  by (auto simp: optional_section_def throwAppError_def Let_def dest: try_block_errors
      split: option.splits if_splits sum.splits thrown.splits)

lemma forEach_rest_errors:
  "forEach_rest jp enc ps st = Inl e \<Longrightarrow>
     statusCode e = 400 \<and> message e \<noteq> MISSING_HTTP_KEYWORD \<and> message e \<noteq> MISSING_URL_KEYWORD"
proof (induction ps arbitrary: st)
  case Nil
  then show ?case by simp
next
  case (Cons p ps)
  then show ?case
    by (auto split: sum.splits dest: optional_section_errors)
qed

lemma compile_errors:
  "compile jp enc arg = Inl e \<Longrightarrow>
     statusCode e = 400 \<and> message e \<noteq> MISSING_HTTP_KEYWORD \<and> message e \<noteq> MISSING_URL_KEYWORD"
  unfolding compile_def
  by (auto simp: throwAppError_def Let_def
      dest: forEach_rest_errors http_section_errors url_section_errors http_section_keyword url_section_keyword
      split: reqline_arg.splits if_splits list.splits sum.splits)

section \<open>Strings\<close>

subsection \<open>trim\<close>

lemma trim_Nil [simp]: "trim [] = []"
  by (simp add: trim_def)

lemma trim_id:
  assumes "s \<noteq> []" "\<not> isWhiteSpace (hd s)" "\<not> isWhiteSpace (last s)"
  shows "trim s = s"
proof -
  from assms have a: "dropWhile isWhiteSpace s = s"
    by (cases s) auto
  from assms have "dropWhile isWhiteSpace (rev s) = rev s"
    by (cases "rev s") (auto simp: hd_rev)
  with a show ?thesis by (simp add: trim_def)
qed

lemma trim_decomp:
  "\<exists>a b. s = a @ trim s @ b \<and> (\<forall>c\<in>set a. isWhiteSpace c) \<and> (\<forall>c\<in>set b. isWhiteSpace c)"
proof -
  let ?a = "takeWhile isWhiteSpace s"
  let ?m = "dropWhile isWhiteSpace s"
  let ?b = "rev (takeWhile isWhiteSpace (rev ?m))"
  have "rev ?m = takeWhile isWhiteSpace (rev ?m) @ dropWhile isWhiteSpace (rev ?m)"
    by simp
  then have "?m = rev (dropWhile isWhiteSpace (rev ?m)) @ ?b"
    by (metis rev_append rev_rev_ident)
  then have "s = ?a @ trim s @ ?b"
    by (metis takeWhile_dropWhile_id trim_def)
  moreover have "\<forall>c\<in>set ?a. isWhiteSpace c"
    by (auto dest: set_takeWhileD)
  moreover have "\<forall>c\<in>set ?b. isWhiteSpace c"
    by (auto dest: set_takeWhileD)
  ultimately show ?thesis by blast
qed

lemma trim_ends:
  assumes "trim s \<noteq> []"
  shows "\<not> isWhiteSpace (hd (trim s))" and "\<not> isWhiteSpace (last (trim s))"
proof -
  let ?m = "dropWhile isWhiteSpace s"
  let ?r = "dropWhile isWhiteSpace (rev ?m)"
  from assms have r: "?r \<noteq> []" by (simp add: trim_def)
  then have "\<not> isWhiteSpace (hd ?r)" by (metis hd_dropWhile)
  then show "\<not> isWhiteSpace (last (trim s))"
    using r by (simp add: trim_def last_rev)
  from r have m: "?m \<noteq> []" by (metis dropWhile.simps(1) rev.simps(1))
  then have h: "\<not> isWhiteSpace (hd ?m)" by (metis hd_dropWhile)
  then have "\<not> isWhiteSpace (last (rev ?m))" using m by (simp add: last_rev)
  have "rev ?m = takeWhile isWhiteSpace (rev ?m) @ ?r" by simp
  then have "?m = rev ?r @ rev (takeWhile isWhiteSpace (rev ?m))"
    by (metis rev_append rev_rev_ident)
  then have "hd ?m = hd (rev ?r)" using r by (metis hd_append2 rev_is_Nil_conv)
  with h show "\<not> isWhiteSpace (hd (trim s))" by (simp add: trim_def)
qed

lemma trim_trim [simp]: "trim (trim s) = trim s"
proof (cases "trim s = []")
  case True
  then show ?thesis by simp
next
  case False
  then show ?thesis by (simp add: trim_id trim_ends)
qed

lemma space_isWhiteSpace [simp]: "isWhiteSpace CHR '' ''"
  by (simp add: isWhiteSpace_def)

lemma pipe_not_isWhiteSpace [simp]: "\<not> isWhiteSpace CHR ''|''"
  by (simp add: isWhiteSpace_def)

subsection \<open>indexOf\<close>

lemma indexOf_None_iff: "indexOf c s = None \<longleftrightarrow> c \<notin> set s"
  by (induction s) auto

lemma indexOf_Some:
  "indexOf c s = Some i \<Longrightarrow> i < length s \<and> s ! i = c \<and> c \<notin> set (take i s)"
proof (induction s arbitrary: i)
  case Nil
  then show ?case by simp
next
  case (Cons x xs)
  then show ?case by (auto split: if_splits)
qed

lemma indexOf_split:
  assumes "indexOf c s = Some i"
  shows "s = take i s @ c # drop (Suc i) s"
  using indexOf_Some [OF assms] by (metis id_take_nth_drop)

lemma indexOf_append:
  "c \<notin> set k \<Longrightarrow> indexOf c (k @ c # v) = Some (length k)"
  by (induction k) auto

lemma js_includes_char: "js_includes [c] s \<longleftrightarrow> c \<in> set s"
  by (induction s) (auto simp: startsWith_def)

subsection \<open>Keyword and value of a section\<close>

lemma keyword_value_split:
  assumes "indexOf CHR '' '' (trim p) = Some i"
  shows "trim p = keyword_of p @ CHR '' '' # value_of p" and "CHR '' '' \<notin> set (keyword_of p)"
  using indexOf_split [OF assms] indexOf_Some [OF assms]
  by (simp_all add: keyword_of_def value_of_def assms)

lemma keyword_value_of_trimmed:
  assumes "trim p = k @ CHR '' '' # v" "CHR '' '' \<notin> set k"
  shows "keyword_of p = k" and "value_of p = v" and "indexOf CHR '' '' (trim p) = Some (length k)"
  using assms by (simp_all add: keyword_of_def value_of_def indexOf_append)

lemma keyword_of_nonempty:
  assumes "keyword_of p \<noteq> []"
  shows "\<exists>i. indexOf CHR '' '' (trim p) = Some i"
  using assms by (cases "indexOf CHR '' '' (trim p)") (auto simp: keyword_of_def)

lemma value_of_ends:
  assumes "indexOf CHR '' '' (trim p) = Some i"
  shows "value_of p \<noteq> []" and "trim (value_of p) \<noteq> []"
proof -
  have t: "trim p = keyword_of p @ CHR '' '' # value_of p"
    by (rule keyword_value_split [OF assms])
  then have ne: "trim p \<noteq> []" by auto
  have l: "\<not> isWhiteSpace (last (trim p))" by (rule trim_ends [OF ne])
  show v: "value_of p \<noteq> []"
  proof
    assume "value_of p = []"
    with t have "last (trim p) = CHR '' ''" by simp
    with l show False by simp
  qed
  from t v have "last (value_of p) = last (trim p)" by simp
  with l have "\<not> isWhiteSpace (last (value_of p))" by simp
  then have "dropWhile isWhiteSpace (value_of p) \<noteq> []"
    using v by (metis dropWhile_eq_Nil_conv last_in_set)
  then obtain a b where "value_of p = a @ trim (value_of p) @ b"
    "\<forall>c\<in>set b. isWhiteSpace c" "\<forall>c\<in>set a. isWhiteSpace c"
    using trim_decomp by blast
  then show "trim (value_of p) \<noteq> []"
    using v \<open>\<not> isWhiteSpace (last (value_of p))\<close>
    by (metis append_Nil last_appendR last_in_set self_append_conv)
qed

section \<open>When the stages succeed\<close>

lemma toUpperCase_keywords [simp]:
  "toUpperCase ''GET'' = codeUnits ''GET''" "toUpperCase ''POST'' = codeUnits ''POST''"
  "toUpperCase ''HEADERS'' = codeUnits ''HEADERS''" "toUpperCase ''QUERY'' = codeUnits ''QUERY''"
  "toUpperCase ''BODY'' = codeUnits ''BODY''"
  by code_simp+

lemma http_section_Inr_iff:
  "http_section h = Inr m \<longleftrightarrow>
     \<not> consecutiveSpaces h \<and> trim h = ''HTTP '' @ m \<and> (m = ''GET'' \<or> m = ''POST'')"
proof
  assume a: "http_section h = Inr m"
  then obtain i where i: "indexOf CHR '' '' (trim h) = Some i"
    by (auto simp: http_section_def throwAppError_def Let_def split: option.splits if_splits)
  from a i have k: "keyword_of h = ''HTTP''" and v: "value_of h = m"
    and c: "\<not> consecutiveSpaces h" and m: "m = ''GET'' \<or> m = ''POST''"
    by (auto simp: http_section_def throwAppError_def Let_def keyword_of_def value_of_def
        split: if_splits)
  from keyword_value_split(1) [OF i] k v have "trim h = ''HTTP '' @ m" by simp
  with c m show "\<not> consecutiveSpaces h \<and> trim h = ''HTTP '' @ m \<and> (m = ''GET'' \<or> m = ''POST'')"
    by simp
next
  assume a: "\<not> consecutiveSpaces h \<and> trim h = ''HTTP '' @ m \<and> (m = ''GET'' \<or> m = ''POST'')"
  then have t: "trim h = ''HTTP'' @ CHR '' '' # m" by simp
  have ne: "h \<noteq> []" using t by auto
  have i: "indexOf CHR '' '' (trim h) = Some 4" using t by simp
  from a ne i show "http_section h = Inr m"
    by (auto simp: http_section_def Let_def js_includes_char)
qed

lemma url_section_Inr_iff:
  "url_section u = Inr url \<longleftrightarrow>
     \<not> consecutiveSpaces u \<and> trim u = ''URL '' @ url \<and> CHR '' '' \<notin> set url
     \<and> (startsWith ''http://'' url \<or> startsWith ''https://'' url) \<and> length url > 8"
proof
  assume a: "url_section u = Inr url"
  then obtain i where i: "indexOf CHR '' '' (trim u) = Some i"
    by (auto simp: url_section_def throwAppError_def Let_def split: option.splits if_splits)
  from a i have k: "keyword_of u = ''URL''" and v: "value_of u = url"
    and c: "\<not> consecutiveSpaces u" and s: "CHR '' '' \<notin> set url"
    and f: "(startsWith ''http://'' url \<or> startsWith ''https://'' url) \<and> length url > 8"
    by (auto simp: url_section_def throwAppError_def Let_def keyword_of_def value_of_def
        js_includes_char split: if_splits)
  from keyword_value_split(1) [OF i] k v have "trim u = ''URL '' @ url" by simp
  with c s f show "\<not> consecutiveSpaces u \<and> trim u = ''URL '' @ url \<and> CHR '' '' \<notin> set url
     \<and> (startsWith ''http://'' url \<or> startsWith ''https://'' url) \<and> length url > 8"
    by simp
next
  assume a: "\<not> consecutiveSpaces u \<and> trim u = ''URL '' @ url \<and> CHR '' '' \<notin> set url
     \<and> (startsWith ''http://'' url \<or> startsWith ''https://'' url) \<and> length url > 8"
  then have t: "trim u = ''URL'' @ CHR '' '' # url" by simp
  have ne: "u \<noteq> []" using t by auto
  have i: "indexOf CHR '' '' (trim u) = Some 3" using t by simp
  from a have ne': "url \<noteq> []" by auto
  from a ne ne' i show "url_section u = Inr url"
    by (auto simp: url_section_def Let_def js_includes_char)
qed

lemma optional_section_Inr_iff:
  "optional_section jp enc p st = Inr st' \<longleftrightarrow>
     \<not> consecutiveSpaces p
     \<and> (\<exists>i. indexOf CHR '' '' (trim p) = Some i)
     \<and> (keyword_of p = ''HEADERS'' \<or> keyword_of p = ''QUERY'' \<or> keyword_of p = ''BODY'')
     \<and> keyword_of p \<notin> processedSections st
     \<and> try_block jp enc (keyword_of p) (value_of p)
          (st\<lparr>processedSections := insert (keyword_of p) (processedSections st)\<rparr>) = Inr st'"
proof (cases "indexOf CHR '' '' (trim p)")
  case None
  then show ?thesis
    by (auto simp: optional_section_def throwAppError_def Let_def)
next
  case (Some i)
  note v = value_of_ends [OF Some]
  have ne: "p \<noteq> []" "trim p \<noteq> []"
    using keyword_value_split(1) [OF Some] by auto
  show ?thesis
    using Some v ne
    by (auto simp: optional_section_def throwAppError_def Let_def keyword_of_def value_of_def
        split: sum.splits thrown.splits)
qed

lemma optional_section_duplicate:
  assumes "\<not> consecutiveSpaces p"
    and "keyword_of p = ''HEADERS'' \<or> keyword_of p = ''QUERY'' \<or> keyword_of p = ''BODY''"
    and "keyword_of p \<in> processedSections st"
  shows "optional_section jp enc p st = Inl (AppError DUPLICATE_SECTION 400)"
proof -
  from assms(2) have "keyword_of p \<noteq> []" by auto
  then obtain i where i: "indexOf CHR '' '' (trim p) = Some i"
    using keyword_of_nonempty by blast
  have ne: "p \<noteq> []" "trim p \<noteq> []"
    using keyword_value_split(1) [OF i] by auto
  show ?thesis
    using assms i ne
    by (auto simp: optional_section_def throwAppError_def Let_def keyword_of_def)
qed

section \<open>The query string\<close>

lemma those_map_Some_iff:
  "those (map f xs) = Some ys \<longleftrightarrow> (\<forall>x\<in>set xs. f x \<noteq> None) \<and> ys = map (\<lambda>x. the (f x)) xs"
proof (induction xs arbitrary: ys)
  case Nil
  then show ?case by auto
next
  case (Cons x xs)
  show ?case
  proof (cases "f x")
    case None
    then show ?thesis by auto
  next
    case (Some a)
    show ?thesis
    proof (cases "those (map f xs)")
      case None
      with Cons.IH [of "map (\<lambda>x. the (f x)) xs"] have "\<not> (\<forall>x\<in>set xs. f x \<noteq> None)"
        by simp
      with None Some show ?thesis by auto
    next
      case (Some zs)
      with Cons.IH [of zs] \<open>f x = Some a\<close> show ?thesis by auto
    qed
  qed
qed

lemma queryParts_Some_iff:
  "queryParts enc params = Some parts \<longleftrightarrow>
     (\<forall>(k, v)\<in>set params. enc v \<noteq> None)
     \<and> parts = map (\<lambda>(k, v). k @ ''='' @ the (enc v)) params"
proof -
  have "queryParts enc params = Some parts \<longleftrightarrow>
      (\<forall>x\<in>set params. (case x of (k, v) \<Rightarrow> map_option (\<lambda>e. k @ ''='' @ e) (enc v)) \<noteq> None)
      \<and> parts = map (\<lambda>x. the (case x of (k, v) \<Rightarrow> map_option (\<lambda>e. k @ ''='' @ e) (enc v))) params"
    unfolding queryParts_def by (rule those_map_Some_iff)
  also have "\<dots> \<longleftrightarrow> (\<forall>(k, v)\<in>set params. enc v \<noteq> None)
     \<and> parts = map (\<lambda>(k, v). k @ ''='' @ the (enc v)) params"
    by (auto simp: option.map_sel split: prod.splits)
  finally show ?thesis .
qed

lemma join_eq_Nil_iff:
  assumes "\<forall>x\<in>set xs. x \<noteq> []"
  shows "join sep xs = [] \<longleftrightarrow> xs = []"
  using assms by (induction sep xs rule: join.induct) auto

lemma join_pairs_eq_Nil_iff:
  "join ''&'' (map (\<lambda>(k, v). k @ CHR ''='' # the (enc v)) params) = [] \<longleftrightarrow> params = []"
  by (subst join_eq_Nil_iff) auto

lemma Map_set_fresh: "k \<notin> fst ` set m \<Longrightarrow> Map_set m k v = m @ [(k, v)]"
  by (induction m) auto

lemma foldl_Map_set_distinct:
  "distinct (map fst (m @ es)) \<Longrightarrow> foldl (\<lambda>m (k, v). Map_set m k v) m es = m @ es"
proof (induction es arbitrary: m)
  case Nil
  then show ?case by simp
next
  case (Cons e es)
  obtain k v where e: "e = (k, v)" by (cases e)
  from Cons.prems e have f: "k \<notin> fst ` set m" by auto
  from Cons.prems e have "distinct (map fst ((m @ [(k, v)]) @ es))" by simp
  from Cons.IH [OF this] show ?case by (simp add: e Map_set_fresh [OF f])
qed

lemma new_Map_distinct: "distinct (map fst es) \<Longrightarrow> new_Map es = es"
  using foldl_Map_set_distinct [of "[]" es] by (simp add: new_Map_def)

lemma Map_set_not_Nil: "Map_set m k v \<noteq> []"
  by (cases m) (auto split: if_splits)

lemma foldl_Map_set_not_Nil:
  "m \<noteq> [] \<or> es \<noteq> [] \<Longrightarrow> foldl (\<lambda>m (k, v). Map_set m k v) m es \<noteq> []"
proof (induction es arbitrary: m)
  case Nil
  then show ?case by simp
next
  case (Cons e es)
  obtain k v where e: "e = (k, v)" by (cases e)
  show ?case using Cons.IH [of "Map_set m k v"] by (simp add: e Map_set_not_Nil)
qed

lemma new_Map_eq_Nil_iff: "new_Map es = [] \<longleftrightarrow> es = []"
  using foldl_Map_set_not_Nil [of "[]" es] by (auto simp: new_Map_def)

section \<open>The switch of an optional section\<close>

lemma object_iff:
  "typeof_object q \<and> \<not> isArray q \<and> Object_entries q = Some es \<longleftrightarrow> q = JObject es"
  by (cases q) (auto simp: typeof_object_def isArray_def Object_entries_def)

lemma try_block_processedSections:
  "try_block jp enc k v st = Inr st' \<Longrightarrow> processedSections st' = processedSections st"
  by (auto simp: try_block_def Let_def split: if_splits option.splits)

lemma try_block_HEADERS_iff:
  "try_block jp enc ''HEADERS'' v st = Inr st' \<longleftrightarrow>
     (\<exists>h. jp v = Some h \<and> typeof_object h \<and> \<not> isArray h
        \<and> st' = st\<lparr>req := (req st)\<lparr>headers := h\<rparr>\<rparr>)"
  by (auto simp: try_block_def split: option.splits)

lemma try_block_BODY_iff:
  "try_block jp enc ''BODY'' v st = Inr st' \<longleftrightarrow>
     (\<exists>b. jp v = Some b \<and> st' = st\<lparr>req := (req st)\<lparr>body := b\<rparr>\<rparr>)"
  by (auto simp: try_block_def split: option.splits)

lemma appendQuery_eq:
  "appendQuery u qs = u @ (if CHR ''?'' \<in> set u then ''&'' else ''?'') @ qs"
  by (simp add: appendQuery_def js_includes_char)

lemma try_block_QUERY_iff:
  "try_block jp enc ''QUERY'' v st = Inr st' \<longleftrightarrow>
     (\<exists>es. jp v = Some (JObject es)
        \<and> (\<forall>(k, v)\<in>set (new_Map es). enc v \<noteq> None)
        \<and> st' =
            (if es = [] then st\<lparr>req := (req st)\<lparr>query := JObject es\<rparr>\<rparr>
             else st\<lparr>fullUrl_var :=
                       appendQuery (fullUrl_var st)
                         (join ''&'' (map (\<lambda>(k, v). k @ ''='' @ the (enc v)) (new_Map es))),
                     req := (req st)\<lparr>query := JObject es,
                       fullUrl := appendQuery (fullUrl_var st)
                         (join ''&'' (map (\<lambda>(k, v). k @ ''='' @ the (enc v)) (new_Map es)))\<rparr>\<rparr>))"
  (is "?l \<longleftrightarrow> ?r")
proof
  assume l: ?l
  then obtain q where q: "jp v = Some q"
    by (auto simp: try_block_def split: option.splits)
  with l obtain es where es: "Object_entries q = Some es" and t: "typeof_object q" "\<not> isArray q"
    by (auto simp: try_block_def split: option.splits if_splits)
  then have qo: "q = JObject es" using object_iff by blast
  from l q es t obtain parts where p: "queryParts enc (new_Map es) = Some parts"
    by (auto simp: try_block_def split: option.splits if_splits)
  note pp = p [unfolded queryParts_Some_iff]
  from l q es t p pp show ?r
    by (auto simp: try_block_def Let_def qo join_pairs_eq_Nil_iff
        new_Map_eq_Nil_iff split: if_splits)
next
  assume ?r
  then obtain es where q: "jp v = Some (JObject es)"
    and e: "\<forall>(k, v)\<in>set (new_Map es). enc v \<noteq> None"
    and s: "st' =
            (if es = [] then st\<lparr>req := (req st)\<lparr>query := JObject es\<rparr>\<rparr>
             else st\<lparr>fullUrl_var :=
                       appendQuery (fullUrl_var st)
                         (join ''&'' (map (\<lambda>(k, v). k @ ''='' @ the (enc v)) (new_Map es))),
                     req := (req st)\<lparr>query := JObject es,
                       fullUrl := appendQuery (fullUrl_var st)
                         (join ''&'' (map (\<lambda>(k, v). k @ ''='' @ the (enc v)) (new_Map es)))\<rparr>\<rparr>)"
    by blast
  have p: "queryParts enc (new_Map es) = Some (map (\<lambda>(k, v). k @ ''='' @ the (enc v)) (new_Map es))"
    using e by (simp add: queryParts_Some_iff)
  have o: "typeof_object (JObject es)" "\<not> isArray (JObject es)"
    "Object_entries (JObject es) = Some es"
    using object_iff [of "JObject es" es] by auto
  show ?l
    using q p o s
    by (auto simp: try_block_def Let_def join_pairs_eq_Nil_iff
        new_Map_eq_Nil_iff)
qed

section \<open>The loop over the optional sections\<close>

lemma optional_section_processedSections:
  assumes "optional_section jp enc p st = Inr st'"
  shows "processedSections st' = insert (keyword_of p) (processedSections st)"
    and "keyword_of p \<notin> processedSections st"
  using assms try_block_processedSections
  by (fastforce simp: optional_section_Inr_iff)+

lemma forEach_rest_append:
  "forEach_rest jp enc (ps @ qs) st =
     (case forEach_rest jp enc ps st of
        Inl e \<Rightarrow> Inl e
      | Inr st' \<Rightarrow> forEach_rest jp enc qs st')"
  by (induction ps arbitrary: st) (auto split: sum.splits)

lemma forEach_rest_processedSections:
  "forEach_rest jp enc ps st = Inr st' \<Longrightarrow>
     processedSections st' = processedSections st \<union> keyword_of ` set ps"
proof (induction ps arbitrary: st)
  case Nil
  then show ?case by simp
next
  case (Cons p ps)
  then show ?case
    by (auto split: sum.splits dest!: optional_section_processedSections(1))
qed

lemma forEach_rest_fresh:
  "forEach_rest jp enc ps st = Inr st' \<Longrightarrow>
     (\<forall>p\<in>set ps. keyword_of p \<notin> processedSections st) \<and> distinct (map keyword_of ps)"
proof (induction ps arbitrary: st)
  case Nil
  then show ?case by simp
next
  case (Cons p ps)
  from Cons.prems obtain st1 where
    s: "optional_section jp enc p st = Inr st1" and r: "forEach_rest jp enc ps st1 = Inr st'"
    by (auto split: sum.splits)
  note a = optional_section_processedSections [OF s]
  from Cons.IH [OF r] a show ?case by auto
qed

lemma optional_section_keeps_fullUrl:
  assumes "optional_section jp enc p st = Inr st'" "keyword_of p \<noteq> ''QUERY''"
  shows "fullUrl_var st' = fullUrl_var st \<and> fullUrl (req st') = fullUrl (req st)"
  using assms
  by (auto simp: optional_section_Inr_iff try_block_HEADERS_iff try_block_BODY_iff)

lemma forEach_rest_keeps_fullUrl:
  "forEach_rest jp enc ps st = Inr st' \<Longrightarrow> \<forall>p\<in>set ps. keyword_of p \<noteq> ''QUERY'' \<Longrightarrow>
     fullUrl_var st' = fullUrl_var st \<and> fullUrl (req st') = fullUrl (req st)"
proof (induction ps arbitrary: st)
  case Nil
  then show ?case by simp
next
  case (Cons p ps)
  from Cons.prems obtain st1 where
    s: "optional_section jp enc p st = Inr st1" and r: "forEach_rest jp enc ps st1 = Inr st'"
    by (auto split: sum.splits)
  from optional_section_keeps_fullUrl [OF s] Cons.IH [OF r] Cons.prems(2) show ?case by simp
qed

lemma optional_section_QUERY:
  assumes "optional_section jp enc p st = Inr st'" "keyword_of p = ''QUERY''"
  shows "\<exists>es. jp (value_of p) = Some (JObject es)
           \<and> (\<forall>(k, v)\<in>set (new_Map es). enc v \<noteq> None)
           \<and> query (req st') = JObject es
           \<and> (es = [] \<longrightarrow> fullUrl_var st' = fullUrl_var st \<and> fullUrl (req st') = fullUrl (req st))
           \<and> (es \<noteq> [] \<longrightarrow>
                fullUrl_var st' = appendQuery (fullUrl_var st)
                  (join ''&'' (map (\<lambda>(k, v). k @ ''='' @ the (enc v)) (new_Map es)))
                \<and> fullUrl (req st') = fullUrl_var st')"
  using assms
  by (auto simp: optional_section_Inr_iff try_block_QUERY_iff)

lemma forEach_rest_fullUrl:
  assumes run: "forEach_rest jp enc rest (initial_locals url) = Inr st"
  shows "(\<forall>p\<in>set rest. keyword_of p \<noteq> ''QUERY'') \<longrightarrow> fullUrl (req st) = url"
    and "\<And>p es. p \<in> set rest \<Longrightarrow> keyword_of p = ''QUERY'' \<Longrightarrow> jp (value_of p) = Some (JObject es)
           \<Longrightarrow> (\<forall>(k, v)\<in>set (new_Map es). enc v \<noteq> None)
               \<and> fullUrl (req st) =
                   (if es = [] then url
                    else appendQuery url
                      (join ''&'' (map (\<lambda>(k, v). k @ ''='' @ the (enc v)) (new_Map es))))"
proof -
  show "(\<forall>p\<in>set rest. keyword_of p \<noteq> ''QUERY'') \<longrightarrow> fullUrl (req st) = url"
    using forEach_rest_keeps_fullUrl [OF run] by (simp add: initial_locals_def)
next
  fix p es
  assume p: "p \<in> set rest" and k: "keyword_of p = ''QUERY''"
    and j: "jp (value_of p) = Some (JObject es)"
  from p obtain pre post where rest: "rest = pre @ p # post"
    by (auto simp: in_set_conv_decomp)
  from run rest obtain st1 st2 where
    r1: "forEach_rest jp enc pre (initial_locals url) = Inr st1"
    and r2: "optional_section jp enc p st1 = Inr st2"
    and r3: "forEach_rest jp enc post st2 = Inr st"
    by (auto simp: forEach_rest_append split: sum.splits)
  from forEach_rest_fresh [OF run] rest k
  have d: "\<forall>q\<in>set pre. keyword_of q \<noteq> ''QUERY''" "\<forall>q\<in>set post. keyword_of q \<noteq> ''QUERY''"
    by (auto simp: image_iff)
  from forEach_rest_keeps_fullUrl [OF r1 d(1)]
  have u1: "fullUrl_var st1 = url" "fullUrl (req st1) = url"
    by (simp_all add: initial_locals_def)
  from forEach_rest_keeps_fullUrl [OF r3 d(2)]
  have u3: "fullUrl (req st) = fullUrl (req st2)" by simp
  from optional_section_QUERY [OF r2 k] j u1 u3
  show "(\<forall>(k, v)\<in>set (new_Map es). enc v \<noteq> None)
               \<and> fullUrl (req st) =
                   (if es = [] then url
                    else appendQuery url
                      (join ''&'' (map (\<lambda>(k, v). k @ ''='' @ the (enc v)) (new_Map es))))"
    by auto
qed

section \<open>The service on a string\<close>

lemma split_pipe_not_Nil [simp]: "split_pipe s \<noteq> []"
  by (induction s rule: split_pipe.induct) (auto split: list.splits)

lemma compile_sections:
  assumes "startsWith ''['' s" "endsWith '']'' s"
    and "\<not> pipeSpacingError (reqlineContent_of s)"
    and "split_pipe (reqlineContent_of s) = h # u # rest"
    and "http_section h = Inr m" "url_section u = Inr url"
  shows "compile jp enc (Str s) =
           (case forEach_rest jp enc rest (initial_locals url) of
              Inl e \<Rightarrow> Inl e
            | Inr st \<Rightarrow> Inr (m, req st))"
proof -
  from assms(1) have s: "s \<noteq> []" by (auto simp: startsWith_def)
  from assms(4) have c: "reqlineContent_of s \<noteq> []" by auto
  from assms(5) have h: "h \<noteq> []" "startsWith ''HTTP '' (trim h)"
    by (auto simp: http_section_Inr_iff startsWith_iff)
  from assms(6) have u: "u \<noteq> []" "startsWith ''URL '' (trim u)"
    by (auto simp: url_section_Inr_iff startsWith_iff)
  show ?thesis
    using assms s c h u by (simp add: compile_def)
qed

lemma compile_Inr_iff:
  "compile jp enc (Str s) = Inr (m, r) \<longleftrightarrow>
     startsWith ''['' s \<and> endsWith '']'' s \<and> \<not> pipeSpacingError (reqlineContent_of s)
     \<and> (\<exists>h u rest url st.
          split_pipe (reqlineContent_of s) = h # u # rest
          \<and> http_section h = Inr m \<and> url_section u = Inr url
          \<and> forEach_rest jp enc rest (initial_locals url) = Inr st \<and> r = req st)"
  (is "?l \<longleftrightarrow> ?r")
proof
  assume ?l
  then show ?r
    unfolding compile_def
    by (auto simp: throwAppError_def Let_def split: if_splits list.splits sum.splits)
next
  assume ?r
  then obtain h u rest url st where
    a: "startsWith ''['' s" "endsWith '']'' s" "\<not> pipeSpacingError (reqlineContent_of s)"
      "split_pipe (reqlineContent_of s) = h # u # rest"
      "http_section h = Inr m" "url_section u = Inr url"
    and b: "forEach_rest jp enc rest (initial_locals url) = Inr st" "r = req st"
    by blast
  show ?l
    using compile_sections [OF a, of jp enc] b by simp
qed

lemma forEach_rest_keywords:
  "forEach_rest jp enc ps st = Inr st' \<Longrightarrow>
     \<forall>p\<in>set ps. keyword_of p = ''HEADERS'' \<or> keyword_of p = ''QUERY'' \<or> keyword_of p = ''BODY''"
proof (induction ps arbitrary: st)
  case Nil
  then show ?case by simp
next
  case (Cons p ps)
  from Cons.prems obtain st1 where
    s: "optional_section jp enc p st = Inr st1" and r: "forEach_rest jp enc ps st1 = Inr st'"
    by (auto split: sum.splits)
  from s have "keyword_of p = ''HEADERS'' \<or> keyword_of p = ''QUERY'' \<or> keyword_of p = ''BODY''"
    by (simp add: optional_section_Inr_iff)
  with Cons.IH [OF r] show ?case by simp
qed

lemma join_contains:
  "x \<in> set xs \<Longrightarrow> \<exists>a b. join sep xs = a @ x @ b"
proof (induction sep xs rule: join.induct)
  case (1 sep)
  then show ?case by simp
next
  case (2 sep y)
  then have "join sep [y] = [] @ x @ []" by simp
  then show ?case by blast
next
  case (3 sep y z zs)
  show ?case
  proof (cases "x = y")
    case True
    then have "join sep (y # z # zs) = [] @ x @ (sep @ join sep (z # zs))" by simp
    then show ?thesis by blast
  next
    case False
    with 3 obtain a b where "join sep (z # zs) = a @ x @ b" by auto
    then have "join sep (y # z # zs) = (y @ sep @ a) @ x @ b" by simp
    then show ?thesis by blast
  qed
qed

lemma section_eval:
  assumes "trim p = k @ CHR '' '' # v" "CHR '' '' \<notin> set k" "\<not> consecutiveSpaces p"
    and "k = ''HEADERS'' \<or> k = ''QUERY'' \<or> k = ''BODY''"
  shows "optional_section jp enc p st = Inr st' \<longleftrightarrow>
           k \<notin> processedSections st
           \<and> try_block jp enc k v (st\<lparr>processedSections := insert k (processedSections st)\<rparr>) = Inr st'"
  using assms keyword_value_of_trimmed [OF assms(1,2)]
  by (auto simp: optional_section_Inr_iff)

lemma compile_query_example:
  assumes jp: \<open>jp ''{"a":"b c"}'' = Some (JObject [(''a'', JString ''b c'')])\<close>
    and enc: "enc (JString ''b c'') = Some ''b%20c''"
  shows \<open>compile jp enc (Str ''[HTTP GET | URL https://api.test/x | QUERY {"a":"b c"}]'')
          = Inr (''GET'', \<lparr>query = JObject [(''a'', JString ''b c'')], body = JObject [],
                           headers = JObject [], fullUrl = ''https://api.test/x?a=b%20c''\<rparr>)\<close>
proof -
  let ?s = \<open>''[HTTP GET | URL https://api.test/x | QUERY {"a":"b c"}]''\<close>
  let ?p = \<open>''QUERY {"a":"b c"}''\<close>
  have a: "startsWith ''['' ?s" "endsWith '']'' ?s" "\<not> pipeSpacingError (reqlineContent_of ?s)"
    "split_pipe (reqlineContent_of ?s) = [''HTTP GET'', ''URL https://api.test/x'', ?p]"
    "http_section ''HTTP GET'' = Inr ''GET''"
    "url_section ''URL https://api.test/x'' = Inr ''https://api.test/x''"
    by code_simp+
  have p: \<open>trim ?p = ''QUERY'' @ CHR '' '' # ''{"a":"b c"}''\<close> "CHR '' '' \<notin> set ''QUERY''"
    "\<not> consecutiveSpaces ?p"
    by code_simp+
  have m: "new_Map [(''a'', JString ''b c'')] = [(''a'', JString ''b c'')]"
    by (simp add: new_Map_def)
  have q: "appendQuery ''https://api.test/x'' ''a=b%20c'' = ''https://api.test/x?a=b%20c''"
    by code_simp
  have "optional_section jp enc ?p (initial_locals ''https://api.test/x'')
      = Inr \<lparr>req = \<lparr>query = JObject [(''a'', JString ''b c'')], body = JObject [],
                       headers = JObject [], fullUrl = ''https://api.test/x?a=b%20c''\<rparr>,
             fullUrl_var = ''https://api.test/x?a=b%20c'', processedSections = {''QUERY''}\<rparr>"
    by (subst section_eval [OF p]) (simp_all add: try_block_QUERY_iff jp enc m q initial_locals_def)
  then show ?thesis
    by (simp add: compile_sections [OF a])
qed


lemma compile_query_key_example:
  assumes jp: \<open>jp ''{"a b":"1"}'' = Some (JObject [(''a b'', JString ''1'')])\<close>
    and enc: "enc (JString ''1'') = Some ''1''"
  shows \<open>compile jp enc (Str ''[HTTP GET | URL https://a.com/x | QUERY {"a b":"1"}]'')
          = Inr (''GET'', \<lparr>query = JObject [(''a b'', JString ''1'')], body = JObject [],
                           headers = JObject [], fullUrl = ''https://a.com/x?a b=1''\<rparr>)\<close>
proof -
  let ?s = \<open>''[HTTP GET | URL https://a.com/x | QUERY {"a b":"1"}]''\<close>
  let ?p = \<open>''QUERY {"a b":"1"}''\<close>
  have a: "startsWith ''['' ?s" "endsWith '']'' ?s" "\<not> pipeSpacingError (reqlineContent_of ?s)"
    "split_pipe (reqlineContent_of ?s) = [''HTTP GET'', ''URL https://a.com/x'', ?p]"
    "http_section ''HTTP GET'' = Inr ''GET''"
    "url_section ''URL https://a.com/x'' = Inr ''https://a.com/x''"
    by code_simp+
  have p: \<open>trim ?p = ''QUERY'' @ CHR '' '' # ''{"a b":"1"}''\<close> "CHR '' '' \<notin> set ''QUERY''"
    "\<not> consecutiveSpaces ?p"
    by code_simp+
  have m: "new_Map [(''a b'', JString ''1'')] = [(''a b'', JString ''1'')]"
    by (simp add: new_Map_def)
  have q: "appendQuery ''https://a.com/x'' ''a b=1'' = ''https://a.com/x?a b=1''"
    by code_simp
  have "optional_section jp enc ?p (initial_locals ''https://a.com/x'')
      = Inr \<lparr>req = \<lparr>query = JObject [(''a b'', JString ''1'')], body = JObject [],
                       headers = JObject [], fullUrl = ''https://a.com/x?a b=1''\<rparr>,
             fullUrl_var = ''https://a.com/x?a b=1'', processedSections = {''QUERY''}\<rparr>"
    by (subst section_eval [OF p]) (simp_all add: try_block_QUERY_iff jp enc m q initial_locals_def)
  then show ?thesis
    by (simp add: compile_sections [OF a])
qed

lemma compile_null_example:
  assumes jp: "jp ''null'' = Some JNull"
  shows "compile jp enc (Str ''[HTTP GET | URL https://a.com/x | HEADERS null]'')
          = Inr (''GET'', \<lparr>query = JObject [], body = JObject [], headers = JNull,
                           fullUrl = ''https://a.com/x''\<rparr>)"
    and "compile jp enc (Str ''[HTTP GET | URL https://a.com/x | QUERY null]'')
          = Inl (AppError (Text ''Invalid JSON format in QUERY section'') 400)"
proof -
  let ?s = "''[HTTP GET | URL https://a.com/x | HEADERS null]''"
  let ?p = "''HEADERS null''"
  have a: "startsWith ''['' ?s" "endsWith '']'' ?s" "\<not> pipeSpacingError (reqlineContent_of ?s)"
    "split_pipe (reqlineContent_of ?s) = [''HTTP GET'', ''URL https://a.com/x'', ?p]"
    "http_section ''HTTP GET'' = Inr ''GET''"
    "url_section ''URL https://a.com/x'' = Inr ''https://a.com/x''"
    by code_simp+
  have p: "trim ?p = ''HEADERS'' @ CHR '' '' # ''null''" "CHR '' '' \<notin> set ''HEADERS''"
    "\<not> consecutiveSpaces ?p"
    by code_simp+
  have "optional_section jp enc ?p (initial_locals ''https://a.com/x'')
      = Inr \<lparr>req = \<lparr>query = JObject [], body = JObject [], headers = JNull,
                       fullUrl = ''https://a.com/x''\<rparr>,
             fullUrl_var = ''https://a.com/x'', processedSections = {''HEADERS''}\<rparr>"
    by (subst section_eval [OF p])
      (simp_all add: try_block_HEADERS_iff jp initial_locals_def typeof_object_def isArray_def)
  then show "compile jp enc (Str ?s)
          = Inr (''GET'', \<lparr>query = JObject [], body = JObject [], headers = JNull,
                           fullUrl = ''https://a.com/x''\<rparr>)"
    by (simp add: compile_sections [OF a])
next
  let ?s = "''[HTTP GET | URL https://a.com/x | QUERY null]''"
  let ?p = "''QUERY null''"
  have a: "startsWith ''['' ?s" "endsWith '']'' ?s" "\<not> pipeSpacingError (reqlineContent_of ?s)"
    "split_pipe (reqlineContent_of ?s) = [''HTTP GET'', ''URL https://a.com/x'', ?p]"
    "http_section ''HTTP GET'' = Inr ''GET''"
    "url_section ''URL https://a.com/x'' = Inr ''https://a.com/x''"
    by code_simp+
  have p: "trim ?p = ''QUERY null''" "indexOf CHR '' '' ''QUERY null'' = Some 5"
    "\<not> consecutiveSpaces ?p" "trim ''null'' = ''null''"
    by code_simp+
  have "optional_section jp enc ?p (initial_locals ''https://a.com/x'')
      = Inl (AppError (Text ''Invalid JSON format in QUERY section'') 400)"
    by (simp add: optional_section_def p try_block_def jp typeof_object_def isArray_def
        Object_entries_def throwAppError_def initial_locals_def)
  then show "compile jp enc (Str ?s)
          = Inl (AppError (Text ''Invalid JSON format in QUERY section'') 400)"
    by (simp add: compile_sections [OF a])
qed

lemma non_object_rejected:
  assumes "jp v = Some x" "\<not> (\<exists>es. x = JObject es)" "x \<noteq> JNull"
  shows "try_block jp enc ''HEADERS'' v st = Inl (Application (AppError INVALID_JSON_FORMAT_HEADERS 400))"
    and "try_block jp enc ''QUERY'' v st = Inl (Application (AppError INVALID_JSON_FORMAT_QUERY 400))"
  using assms by (cases x; simp add: try_block_def typeof_object_def isArray_def)+

section \<open>The pipe delimiters\<close>

lemma js_includes_iff: "js_includes p s \<longleftrightarrow> (\<exists>a b. s = a @ p @ b)"
proof (induction s)
  case Nil
  then show ?case by auto
next
  case (Cons c cs)
  show ?case
  proof
    assume "js_includes p (c # cs)"
    then consider "startsWith p (c # cs)" | "js_includes p cs" by auto
    then show "\<exists>a b. c # cs = a @ p @ b"
    proof cases
      case 1
      then obtain r where "c # cs = [] @ p @ r" by (auto simp: startsWith_iff)
      then show ?thesis by blast
    next
      case 2
      with Cons.IH obtain a b where "cs = a @ p @ b" by blast
      then have "c # cs = (c # a) @ p @ b" by simp
      then show ?thesis by blast
    qed
  next
    assume "\<exists>a b. c # cs = a @ p @ b"
    then obtain a b where ab: "c # cs = a @ p @ b" by blast
    show "js_includes p (c # cs)"
    proof (cases a)
      case Nil
      with ab have "startsWith p (c # cs)" by (auto simp: startsWith_iff)
      then show ?thesis by simp
    next
      case (Cons x a')
      with ab have "cs = a' @ p @ b" by simp
      with Cons.IH show ?thesis by auto
    qed
  qed
qed

text \<open>
  The pipe at the end of \<open>a\<close> in \<open>a @ | # b\<close> passes the loop exactly when \<open>a\<close> ends
  with one space, not two, and \<open>b\<close> starts with one space, not two.
\<close>

lemma pipeViolation_at:
  "pipeViolation (a @ CHR ''|'' # b) (length a) \<longleftrightarrow>
     \<not> ((\<exists>a'. a = a' @ '' '' \<and> (a' = [] \<or> last a' \<noteq> CHR '' ''))
        \<and> (\<exists>b'. b = CHR '' '' # b' \<and> (b' = [] \<or> hd b' \<noteq> CHR '' '')))"
proof -
  have before1: "(length a = 0 \<or> (a @ CHR ''|'' # b) ! (length a - 1) \<noteq> CHR '' '')
      \<longleftrightarrow> \<not> (\<exists>a'. a = a' @ '' '')"
    by (cases a rule: rev_cases) (auto simp: nth_append)
  have before2: "(2 \<le> length a \<and> (a @ CHR ''|'' # b) ! (length a - 2) = CHR '' '')
      \<longleftrightarrow> (\<exists>a' x. a = a' @ [CHR '' '', x])"
  proof (cases a rule: rev_cases)
    case Nil
    then show ?thesis by simp
  next
    case (snoc a1 x)
    then show ?thesis
      by (cases a1 rule: rev_cases) (auto simp: nth_append)
  qed
  have after1: "(length a = length (a @ CHR ''|'' # b) - 1
        \<or> (a @ CHR ''|'' # b) ! (length a + 1) \<noteq> CHR '' '')
      \<longleftrightarrow> \<not> (\<exists>b'. b = CHR '' '' # b')"
    by (cases b) (auto simp: nth_append)
  have after2: "(length a + 2 < length (a @ CHR ''|'' # b)
        \<and> (a @ CHR ''|'' # b) ! (length a + 2) = CHR '' '')
      \<longleftrightarrow> (\<exists>x b'. b = x # CHR '' '' # b')"
  proof (cases b)
    case Nil
    then show ?thesis by simp
  next
    case (Cons x b1)
    then show ?thesis by (cases b1) (auto simp: nth_append)
  qed
  have l: "(\<exists>a'. a = a' @ '' '' \<and> (a' = [] \<or> last a' \<noteq> CHR '' ''))
      \<longleftrightarrow> (\<exists>a'. a = a' @ '' '') \<and> \<not> (\<exists>a' x. a = a' @ [CHR '' '', x])"
  proof (cases a rule: rev_cases)
    case Nil
    then show ?thesis by simp
  next
    case (snoc a1 x)
    then show ?thesis
      by (cases a1 rule: rev_cases) auto
  qed
  have r: "(\<exists>b'. b = CHR '' '' # b' \<and> (b' = [] \<or> hd b' \<noteq> CHR '' ''))
      \<longleftrightarrow> (\<exists>b'. b = CHR '' '' # b') \<and> \<not> (\<exists>x b'. b = x # CHR '' '' # b')"
  proof (cases b)
    case Nil
    then show ?thesis by simp
  next
    case (Cons x b1)
    then show ?thesis by (cases b1) auto
  qed
  have "pipeViolation (a @ CHR ''|'' # b) (length a) \<longleftrightarrow>
      (length a = 0 \<or> (a @ CHR ''|'' # b) ! (length a - 1) \<noteq> CHR '' '')
      \<or> (length a = length (a @ CHR ''|'' # b) - 1
        \<or> (a @ CHR ''|'' # b) ! (length a + 1) \<noteq> CHR '' '')
      \<or> (2 \<le> length a \<and> (a @ CHR ''|'' # b) ! (length a - 2) = CHR '' '')
      \<or> (length a + 2 < length (a @ CHR ''|'' # b)
        \<and> (a @ CHR ''|'' # b) ! (length a + 2) = CHR '' '')"
    unfolding pipeViolation_def by simp
  then show ?thesis
    unfolding before1 before2 after1 after2 l r by blast
qed

lemma pipeSpacingError_loop:
  "pipeSpacingError c \<longleftrightarrow> (\<exists>j<length c. pipeViolation c j)"
proof -
  have loop: "list_ex (pipeViolation c) [0..<length c] \<longleftrightarrow> (\<exists>j<length c. pipeViolation c j)"
    by (auto simp: list_ex_iff)
  have one: "\<exists>j<length c. pipeViolation c j" if "js_includes ''  |'' c"
  proof -
    from that obtain a b where c: "c = a @ ''  |'' @ b" by (auto simp: js_includes_iff)
    then have "c = (a @ ''  '') @ CHR ''|'' # b" by simp
    moreover have "pipeViolation ((a @ ''  '') @ CHR ''|'' # b) (length (a @ ''  ''))"
      unfolding pipeViolation_at by auto
    ultimately show ?thesis by (metis length_append less_add_same_cancel1 length_Cons zero_less_Suc)
  qed
  have two: "\<exists>j<length c. pipeViolation c j" if "js_includes ''|  '' c"
  proof -
    from that obtain a b where c: "c = a @ ''|  '' @ b" by (auto simp: js_includes_iff)
    then have "c = a @ CHR ''|'' # (''  '' @ b)" by simp
    moreover have "pipeViolation (a @ CHR ''|'' # (''  '' @ b)) (length a)"
      unfolding pipeViolation_at by auto
    ultimately show ?thesis by (metis length_append less_add_same_cancel1 length_Cons zero_less_Suc)
  qed
  show ?thesis
    unfolding pipeSpacingError_def loop using one two by blast
qed

lemma pipeSpacingError_iff:
  "pipeSpacingError c \<longleftrightarrow>
     (\<exists>a b. c = a @ CHR ''|'' # b
        \<and> \<not> ((\<exists>a'. a = a' @ '' '' \<and> (a' = [] \<or> last a' \<noteq> CHR '' ''))
            \<and> (\<exists>b'. b = CHR '' '' # b' \<and> (b' = [] \<or> hd b' \<noteq> CHR '' ''))))"
  (is "_ \<longleftrightarrow> ?r")
proof
  assume "pipeSpacingError c"
  then obtain j where j: "j < length c" "pipeViolation c j"
    by (auto simp: pipeSpacingError_loop)
  then have "c ! j = CHR ''|''" by (simp add: pipeViolation_def)
  with j have c: "c = take j c @ CHR ''|'' # drop (Suc j) c"
    by (metis id_take_nth_drop)
  from j have l: "length (take j c) = j" by simp
  from j(2) have "pipeViolation (take j c @ CHR ''|'' # drop (Suc j) c) (length (take j c))"
    using c l by simp
  then show ?r
    unfolding pipeViolation_at using c by blast
next
  assume ?r
  then obtain a b where c: "c = a @ CHR ''|'' # b"
    and n: "\<not> ((\<exists>a'. a = a' @ '' '' \<and> (a' = [] \<or> last a' \<noteq> CHR '' ''))
            \<and> (\<exists>b'. b = CHR '' '' # b' \<and> (b' = [] \<or> hd b' \<noteq> CHR '' '')))"
    by blast
  from n have "pipeViolation (a @ CHR ''|'' # b) (length a)"
    unfolding pipeViolation_at .
  moreover have "length a < length (a @ CHR ''|'' # b)" by simp
  ultimately show "pipeSpacingError c"
    unfolding pipeSpacingError_loop c by blast
qed

lemma append_eq_elem_left:
  assumes "xs @ ys = a @ z # b" "z \<notin> set xs"
  shows "\<exists>a'. a = xs @ a' \<and> ys = a' @ z # b"
  using assms
proof (induction xs arbitrary: a)
  case Nil
  then show ?case by simp
next
  case (Cons x xs)
  then show ?case by (cases a) auto
qed

lemma append_eq_elem_right:
  assumes "ys @ xs = a @ z # b" "z \<notin> set xs"
  shows "\<exists>b'. b = b' @ xs \<and> ys = a @ z # b'"
proof -
  from assms(1) have "rev xs @ rev ys = rev b @ z # rev a" by (metis rev_append rev.simps(2) append_assoc append_Cons append_Nil)
  from append_eq_elem_left [OF this] assms(2)
  obtain b' where "rev b = rev xs @ b'" "rev ys = b' @ z # rev a" by auto
  then have "b = rev b' @ xs" "ys = a @ z # rev b'"
    by (metis rev_append rev_rev_ident, metis rev_append rev_rev_ident rev.simps(2) append_assoc append_Cons append_Nil)
  then show ?thesis by blast
qed

lemma pipe_in_trimmed:
  assumes "i = a @ CHR ''|'' # b"
  shows "\<exists>w1 w2 a' b'. a = w1 @ a' \<and> b = b' @ w2 \<and> trim i = a' @ CHR ''|'' # b'
           \<and> (\<forall>c\<in>set w1. isWhiteSpace c) \<and> (\<forall>c\<in>set w2. isWhiteSpace c)"
proof -
  obtain w1 w2 where d: "i = w1 @ trim i @ w2"
    and w: "\<forall>c\<in>set w1. isWhiteSpace c" "\<forall>c\<in>set w2. isWhiteSpace c"
    using trim_decomp by blast
  from w have n: "CHR ''|'' \<notin> set w1" "CHR ''|'' \<notin> set w2" by auto
  from d assms have "w1 @ (trim i @ w2) = a @ CHR ''|'' # b" by simp
  from append_eq_elem_left [OF this n(1)]
  obtain a' where a: "a = w1 @ a'" "trim i @ w2 = a' @ CHR ''|'' # b" by blast
  from append_eq_elem_right [OF a(2) n(2)]
  obtain b' where "b = b' @ w2" "trim i = a' @ CHR ''|'' # b'" by blast
  with a w show ?thesis by blast
qed

lemma misplaced_pipe_error:
  assumes i: "i = a @ CHR ''|'' # b"
    and bad: "length (takeWhile (\<lambda>c. c = CHR '' '') (rev a)) \<noteq> 1
              \<or> length (takeWhile (\<lambda>c. c = CHR '' '') b) \<noteq> 1"
  shows "trim i \<noteq> [] \<and> pipeSpacingError (trim i)"
proof -
  from pipe_in_trimmed [OF i] obtain w1 w2 a' b' where
    a: "a = w1 @ a'" and b: "b = b' @ w2" and t: "trim i = a' @ CHR ''|'' # b'"
    by blast
  from t have ne: "trim i \<noteq> []" by simp
  note e = trim_ends [OF ne]
  have "\<not> ((\<exists>a''. a' = a'' @ '' '' \<and> (a'' = [] \<or> last a'' \<noteq> CHR '' ''))
            \<and> (\<exists>b''. b' = CHR '' '' # b'' \<and> (b'' = [] \<or> hd b'' \<noteq> CHR '' '')))"
  proof
    assume "(\<exists>a''. a' = a'' @ '' '' \<and> (a'' = [] \<or> last a'' \<noteq> CHR '' ''))
            \<and> (\<exists>b''. b' = CHR '' '' # b'' \<and> (b'' = [] \<or> hd b'' \<noteq> CHR '' ''))"
    then obtain a'' b'' where a': "a' = a'' @ '' ''" "a'' = [] \<or> last a'' \<noteq> CHR '' ''"
      and b': "b' = CHR '' '' # b''" "b'' = [] \<or> hd b'' \<noteq> CHR '' ''"
      by blast
    have "a'' \<noteq> []"
    proof
      assume "a'' = []"
      with t a' have "hd (trim i) = CHR '' ''" by simp
      with e(1) show False by simp
    qed
    with a'(2) obtain a3 x where a3: "a'' = a3 @ [x]" "x \<noteq> CHR '' ''"
      by (metis append_butlast_last_id)
    have "b'' \<noteq> []"
    proof
      assume "b'' = []"
      with t b' have "last (trim i) = CHR '' ''" by simp
      with e(2) show False by simp
    qed
    with b'(2) obtain y b3 where b3: "b'' = y # b3" "y \<noteq> CHR '' ''"
      by (cases b'') auto
    from a a' a3 have "length (takeWhile (\<lambda>c. c = CHR '' '') (rev a)) = 1" by simp
    moreover from b b' b3 have "length (takeWhile (\<lambda>c. c = CHR '' '') b) = 1" by simp
    ultimately show False using bad by simp
  qed
  with t have "pipeSpacingError (trim i)"
    unfolding pipeSpacingError_iff by blast
  with ne show ?thesis by simp
qed

section \<open>Splitting and joining\<close>

lemma join_Cons: "ys \<noteq> [] \<Longrightarrow> join sep (x # ys) = x @ sep @ join sep ys"
  by (cases ys) auto

lemma join_append:
  "xs \<noteq> [] \<Longrightarrow> ys \<noteq> [] \<Longrightarrow> join sep (xs @ ys) = join sep xs @ sep @ join sep ys"
proof (induction xs)
  case Nil
  then show ?case by simp
next
  case (Cons x xs)
  then show ?case by (cases "xs = []") (auto simp: join_Cons)
qed

lemma join_split_pipe: "join '' | '' (split_pipe s) = s"
proof (induction s rule: split_pipe.induct)
  case 1
  then show ?case by simp
next
  case (2 c cs)
  show ?case
  proof (cases "startsWith '' | '' (c # cs)")
    case True
    then obtain r where r: "c # cs = '' | '' @ r" by (auto simp: startsWith_iff)
    then have d: "drop 2 cs = r" by auto
    from 2(1) [OF True] d have "join '' | '' (split_pipe r) = r" by simp
    with True r d show ?thesis by (simp add: join_Cons)
  next
    case False
    obtain q qs where q: "split_pipe cs = q # qs" by (cases "split_pipe cs") auto
    from 2(2) [OF False] q have "join '' | '' (q # qs) = cs" by simp
    then have "join '' | '' ((c # q) # qs) = c # cs" by (cases qs) auto
    with False q show ?thesis by simp
  qed
qed

lemma split_pipe_no_pipe: "CHR ''|'' \<notin> set s \<Longrightarrow> split_pipe s = [s]"
proof (induction s)
  case Nil
  then show ?case by simp
next
  case (Cons c cs)
  then have "\<not> startsWith '' | '' (c # cs)" by (auto simp: startsWith_iff)
  with Cons show ?case by simp
qed

lemma split_pipe_append:
  "CHR ''|'' \<notin> set a \<Longrightarrow> split_pipe (a @ '' | '' @ b) = a # split_pipe b"
proof (induction a)
  case Nil
  then show ?case by (simp add: startsWith_def)
next
  case (Cons x a)
  have "\<not> startsWith '' | '' ((x # a) @ '' | '' @ b)"
  proof (cases a)
    case Nil
    then show ?thesis by (simp add: startsWith_def)
  next
    case (Cons y a')
    with Cons.prems show ?thesis by (auto simp: startsWith_def)
  qed
  with Cons show ?case by simp
qed

lemma split_pipe_join:
  "ps \<noteq> [] \<Longrightarrow> \<forall>x\<in>set ps. CHR ''|'' \<notin> set x \<Longrightarrow> split_pipe (join '' | '' ps) = ps"
proof (induction ps)
  case Nil
  then show ?case by simp
next
  case (Cons p ps)
  show ?case
  proof (cases "ps = []")
    case True
    with Cons.prems show ?thesis by (simp add: split_pipe_no_pipe)
  next
    case False
    from Cons.prems have np: "CHR ''|'' \<notin> set p" by simp
    from Cons False have ih: "split_pipe (join '' | '' ps) = ps" by simp
    from split_pipe_append [OF np, of "join '' | '' ps"] ih False
    show ?thesis by (simp add: join_Cons)
  qed
qed

lemma hd_join: "ps \<noteq> [] \<Longrightarrow> hd ps \<noteq> [] \<Longrightarrow> hd (join sep ps) = hd (hd ps)"
  by (cases ps; cases "tl ps") auto

lemma join_not_Nil: "ps \<noteq> [] \<Longrightarrow> last ps \<noteq> [] \<Longrightarrow> join sep ps \<noteq> []"
  by (induction sep ps rule: join.induct) auto

lemma last_join: "ps \<noteq> [] \<Longrightarrow> last ps \<noteq> [] \<Longrightarrow> last (join sep ps) = last (last ps)"
proof (induction sep ps rule: join.induct)
  case (1 sep)
  then show ?case by simp
next
  case (2 sep x)
  then show ?case by simp
next
  case (3 sep x y ys)
  then have "join sep (y # ys) \<noteq> []" using join_not_Nil [of "y # ys" sep] by simp
  with 3 show ?case by simp
qed

text \<open>A pipe in the join of sections without pipes is the pipe of a separator.\<close>

lemma pipe_in_join:
  assumes "\<forall>x\<in>set ps. CHR ''|'' \<notin> set x" "join '' | '' ps = a @ CHR ''|'' # b"
  shows "\<exists>ps1 ps2. ps = ps1 @ ps2 \<and> ps1 \<noteq> [] \<and> ps2 \<noteq> []
           \<and> a = join '' | '' ps1 @ '' '' \<and> b = '' '' @ join '' | '' ps2"
  using assms
proof (induction ps arbitrary: a)
  case Nil
  then show ?case by simp
next
  case (Cons x ps)
  show ?case
  proof (cases "ps = []")
    case True
    with Cons.prems show ?thesis by (metis in_set_conv_decomp join.simps(2) list.set_intros(1))
  next
    case False
    with Cons.prems have j: "x @ ('' | '' @ join '' | '' ps) = a @ CHR ''|'' # b"
      by (simp add: join_Cons)
    from Cons.prems have "CHR ''|'' \<notin> set x" by simp
    from append_eq_elem_left [OF j this]
    obtain a1 where a1: "a = x @ a1" "'' | '' @ join '' | '' ps = a1 @ CHR ''|'' # b" by blast
    from a1(2) have "CHR '' '' # (CHR ''|'' # CHR '' '' # join '' | '' ps) = a1 @ CHR ''|'' # b"
      by simp
    from append_eq_elem_left [of "'' ''" _ a1 "CHR ''|''" b] this
    obtain a2 where a2: "a1 = '' '' @ a2" "CHR ''|'' # CHR '' '' # join '' | '' ps = a2 @ CHR ''|'' # b"
      by auto
    show ?thesis
    proof (cases a2)
      case Nil
      with a2 have "b = '' '' @ join '' | '' ps" by simp
      moreover from a1 a2 Nil have "a = join '' | '' [x] @ '' ''" by simp
      ultimately have "x # ps = [x] @ ps \<and> [x] \<noteq> [] \<and> ps \<noteq> []
           \<and> a = join '' | '' [x] @ '' '' \<and> b = '' '' @ join '' | '' ps"
        using False by simp
      then show ?thesis by blast
    next
      case (Cons y a3)
      with a2 have y: "y = CHR ''|''" and "CHR '' '' # join '' | '' ps = a3 @ CHR ''|'' # b"
        by auto
      from append_eq_elem_left [of "'' ''" _ a3 "CHR ''|''" b] this(2)
      obtain a4 where a4: "a3 = '' '' @ a4" "join '' | '' ps = a4 @ CHR ''|'' # b"
        by auto
      from Cons.prems have "\<forall>x\<in>set ps. CHR ''|'' \<notin> set x" by simp
      from Cons.IH [OF this a4(2)]
      obtain ps1 ps2 where p: "ps = ps1 @ ps2" "ps1 \<noteq> []" "ps2 \<noteq> []"
        "a4 = join '' | '' ps1 @ '' ''" "b = '' '' @ join '' | '' ps2"
        by blast
      from a1 a2 Cons y a4 p have "a = join '' | '' (x # ps1) @ '' ''"
        by (simp add: join_Cons)
      with p have "x # ps = (x # ps1) @ ps2 \<and> x # ps1 \<noteq> [] \<and> ps2 \<noteq> []
           \<and> a = join '' | '' (x # ps1) @ '' '' \<and> b = '' '' @ join '' | '' ps2"
        by simp
      then show ?thesis by blast
    qed
  qed
qed

lemma join_passes_pipe_checks:
  assumes "\<forall>x\<in>set ps. x \<noteq> [] \<and> CHR ''|'' \<notin> set x \<and> hd x \<noteq> CHR '' '' \<and> last x \<noteq> CHR '' ''"
  shows "\<not> pipeSpacingError (join '' | '' ps)"
  unfolding pipeSpacingError_iff
proof (intro notI, elim exE conjE)
  fix a b
  assume j: "join '' | '' ps = a @ CHR ''|'' # b"
    and n: "\<not> ((\<exists>a'. a = a' @ '' '' \<and> (a' = [] \<or> last a' \<noteq> CHR '' ''))
            \<and> (\<exists>b'. b = CHR '' '' # b' \<and> (b' = [] \<or> hd b' \<noteq> CHR '' '')))"
  from assms have "\<forall>x\<in>set ps. CHR ''|'' \<notin> set x" by simp
  from pipe_in_join [OF this j]
  obtain ps1 ps2 where p: "ps = ps1 @ ps2" "ps1 \<noteq> []" "ps2 \<noteq> []"
    "a = join '' | '' ps1 @ '' ''" "b = '' '' @ join '' | '' ps2"
    by blast
  from p assms have l: "last ps1 \<noteq> []" "last (last ps1) \<noteq> CHR '' ''"
    by (metis Un_iff last_in_set set_append)+
  from p assms have h: "hd ps2 \<noteq> []" "hd (hd ps2) \<noteq> CHR '' ''"
    by (metis Un_iff hd_in_set set_append)+
  from last_join [OF p(2) l(1)] l(2) have "last (join '' | '' ps1) \<noteq> CHR '' ''" by simp
  moreover from hd_join [OF p(3) h(1)] h(2) have "hd (join '' | '' ps2) \<noteq> CHR '' ''" by simp
  ultimately show False using n p(4,5) by auto
qed

section \<open>A line with the two fixed sections\<close>

lemma consecutiveSpaces_no_space:
  "CHR '' '' \<notin> set s \<Longrightarrow> \<not> consecutiveSpaces (c # s)"
  by (induction s arbitrary: c) auto

lemma endsWith_append: "endsWith p (a @ p)"
  by (simp add: endsWith_def)

lemma slice_inner_brackets: "slice_inner (x # c @ [y]) = c"
  by (simp add: slice_inner_def)

lemma compile_two_sections:
  assumes M: "M = ''GET'' \<or> M = ''POST''"
    and U: "startsWith ''http://'' U \<or> startsWith ''https://'' U" "length U > 8"
    and clean: "CHR '' '' \<notin> set U" "CHR ''|'' \<notin> set U" "\<not> isWhiteSpace (last U)"
  shows "compile jp enc (Str (''[HTTP '' @ M @ '' | URL '' @ U @ '']''))
           = Inr (M, \<lparr>query = JObject [], body = JObject [], headers = JObject [], fullUrl = U\<rparr>)"
proof -
  let ?h = "''HTTP '' @ M" and ?u = "''URL '' @ U"
  let ?c = "join '' | '' [?h, ?u]"
  let ?s = "''[HTTP '' @ M @ '' | URL '' @ U @ '']''"
  from U have ne: "U \<noteq> []" by auto
  have s: "?s = CHR ''['' # ?c @ '']''" by simp
  have w: "startsWith ''['' ?s" by (simp add: startsWith_def)
  have e: "endsWith '']'' ?s"
    using endsWith_append [of "'']''" "CHR ''['' # ?c"] by simp
  have "slice_inner ?s = ?c"
    using slice_inner_brackets [of "CHR ''[''" ?c "CHR '']''"] by simp
  moreover have "trim ?c = ?c"
    using ne clean(3) by (intro trim_id) (simp_all add: isWhiteSpace_def)
  ultimately have c: "reqlineContent_of ?s = ?c" by (simp add: reqlineContent_of_def)
  have lastU: "last U \<noteq> CHR '' ''" using clean(3) by auto
  have parts: "\<forall>x\<in>set [?h, ?u]. x \<noteq> [] \<and> CHR ''|'' \<notin> set x \<and> hd x \<noteq> CHR '' '' \<and> last x \<noteq> CHR '' ''"
    using M clean(2) ne lastU by auto
  have p: "\<not> pipeSpacingError (reqlineContent_of ?s)"
    unfolding c by (rule join_passes_pipe_checks [OF parts])
  have sp: "split_pipe (reqlineContent_of ?s) = ?h # ?u # []"
    unfolding c using parts by (intro split_pipe_join) auto
  have th: "trim ?h = ?h"
    using M by (intro trim_id) (auto simp: isWhiteSpace_def)
  have hs: "http_section ?h = Inr M"
    unfolding http_section_Inr_iff th using M by auto
  have tu: "trim ?u = ?u"
    using ne clean(3) by (intro trim_id) (simp_all add: isWhiteSpace_def)
  have "\<not> consecutiveSpaces ?u"
    using consecutiveSpaces_no_space [OF clean(1)] by simp
  then have us: "url_section ?u = Inr U"
    unfolding url_section_Inr_iff tu using U clean(1) by simp
  show ?thesis
    using compile_sections [OF w e p sp hs us, of jp enc]
    by (simp add: initial_locals_def)
qed

lemma optional_section_fullUrl_grows:
  assumes "optional_section jp enc p st = Inr st'" "fullUrl (req st) = fullUrl_var st"
  shows "fullUrl (req st') = fullUrl_var st' \<and> (\<exists>x. fullUrl_var st' = fullUrl_var st @ x)"
proof (cases "keyword_of p = ''QUERY''")
  case True
  from optional_section_QUERY [OF assms(1) True] assms(2) show ?thesis
    by (auto simp: appendQuery_eq)
next
  case False
  from optional_section_keeps_fullUrl [OF assms(1) False] assms(2) show ?thesis by simp
qed

lemma forEach_rest_fullUrl_grows:
  "forEach_rest jp enc ps st = Inr st' \<Longrightarrow> fullUrl (req st) = fullUrl_var st \<Longrightarrow>
     fullUrl (req st') = fullUrl_var st' \<and> (\<exists>x. fullUrl_var st' = fullUrl_var st @ x)"
proof (induction ps arbitrary: st)
  case Nil
  then show ?case by simp
next
  case (Cons p ps)
  from Cons.prems obtain st1 where
    s: "optional_section jp enc p st = Inr st1" and r: "forEach_rest jp enc ps st1 = Inr st'"
    by (auto split: sum.splits)
  from optional_section_fullUrl_grows [OF s Cons.prems(2)]
  obtain x where a: "fullUrl (req st1) = fullUrl_var st1" "fullUrl_var st1 = fullUrl_var st @ x"
    by blast
  from Cons.IH [OF r a(1)] a(2) show ?case by auto
qed

lemma compile_fullUrl_shape:
  assumes "compile jp enc (Str s) = Inr (m, r)"
  shows "(startsWith ''http://'' (fullUrl r) \<or> startsWith ''https://'' (fullUrl r))
         \<and> length (fullUrl r) > 8"
proof -
  from assms obtain u rest url st where
    u: "url_section u = Inr url"
    and f: "forEach_rest jp enc rest (initial_locals url) = Inr st" and r: "r = req st"
    by (auto simp: compile_Inr_iff)
  from forEach_rest_fullUrl_grows [OF f] obtain x where "fullUrl r = url @ x"
    by (auto simp: initial_locals_def r)
  moreover from u have "(startsWith ''http://'' url \<or> startsWith ''https://'' url) \<and> length url > 8"
    by (simp add: url_section_Inr_iff)
  ultimately show ?thesis by (auto simp: startsWith_iff)
qed

section \<open>The sections of a checked line\<close>

lemma hd_trim:
  assumes "x \<noteq> []" "\<not> isWhiteSpace (hd x)"
  shows "hd (trim x) = hd x"
proof -
  from assms obtain y ys where x: "x = y # ys" "\<not> isWhiteSpace y" by (cases x) auto
  then have "dropWhile isWhiteSpace x = x" by simp
  moreover have "dropWhile isWhiteSpace (rev ys @ [y]) = dropWhile isWhiteSpace (rev ys) @ [y]"
    using x(2) by (simp add: dropWhile_append3)
  ultimately show ?thesis using x by (simp add: trim_def)
qed

lemma split_pipe_prefix: "\<exists>r. s = hd (split_pipe s) @ r"
proof (induction s rule: split_pipe.induct)
  case 1
  then show ?case by simp
next
  case (2 c cs)
  show ?case
  proof (cases "startsWith '' | '' (c # cs)")
    case True
    then show ?thesis by simp
  next
    case False
    obtain q qs where q: "split_pipe cs = q # qs" by (cases "split_pipe cs") auto
    from 2(2) [OF False] q obtain r where "cs = q @ r" by auto
    with False q show ?thesis by simp
  qed
qed

lemma split_pipe_tl_no_pipe:
  assumes "\<forall>a b. s = a @ CHR ''|'' # b \<longrightarrow> a \<noteq> [] \<longrightarrow>
             (\<exists>a'. a = a' @ '' '') \<and> (\<exists>b'. b = CHR '' '' # b')"
  shows "\<forall>x\<in>set (split_pipe s). CHR ''|'' \<notin> set (tl x)"
  using assms
proof (induction s rule: split_pipe.induct)
  case 1
  then show ?case by simp
next
  case (2 c cs)
  note Q = 2(3)
  show ?case
  proof (cases "startsWith '' | '' (c # cs)")
    case True
    then obtain r where r: "c # cs = '' | '' @ r" by (auto simp: startsWith_iff)
    then have d: "drop 2 cs = r" by auto
    have "\<forall>a b. r = a @ CHR ''|'' # b \<longrightarrow> a \<noteq> [] \<longrightarrow>
             (\<exists>a'. a = a' @ '' '') \<and> (\<exists>b'. b = CHR '' '' # b')"
    proof (intro allI impI)
      fix a b
      assume ab: "r = a @ CHR ''|'' # b" and ne: "a \<noteq> []"
      with r have "c # cs = ('' | '' @ a) @ CHR ''|'' # b" by simp
      with Q obtain a' where "'' | '' @ a = a' @ '' ''" and b: "\<exists>b'. b = CHR '' '' # b'"
        by blast
      with ne have "last a = CHR '' ''" by (metis last_appendR last_snoc)
      with ne have "\<exists>a'. a = a' @ '' ''" by (metis append_butlast_last_id)
      with b show "(\<exists>a'. a = a' @ '' '') \<and> (\<exists>b'. b = CHR '' '' # b')" by simp
    qed
    with 2(1) [OF True] d have "\<forall>x\<in>set (split_pipe r). CHR ''|'' \<notin> set (tl x)" by simp
    with True d show ?thesis by simp
  next
    case False
    obtain q qs where q: "split_pipe cs = q # qs" by (cases "split_pipe cs") auto
    have "\<forall>a b. cs = a @ CHR ''|'' # b \<longrightarrow> a \<noteq> [] \<longrightarrow>
             (\<exists>a'. a = a' @ '' '') \<and> (\<exists>b'. b = CHR '' '' # b')"
    proof (intro allI impI)
      fix a b
      assume ab: "cs = a @ CHR ''|'' # b" and ne: "a \<noteq> []"
      then have "c # cs = (c # a) @ CHR ''|'' # b" by simp
      with Q obtain a' where "c # a = a' @ '' ''" and b: "\<exists>b'. b = CHR '' '' # b'"
        by blast
      with ne have "last a = CHR '' ''" by (metis last_ConsR last_snoc)
      with ne have "\<exists>a'. a = a' @ '' ''" by (metis append_butlast_last_id)
      with b show "(\<exists>a'. a = a' @ '' '') \<and> (\<exists>b'. b = CHR '' '' # b')" by simp
    qed
    from 2(2) [OF False this] q
    have ih: "CHR ''|'' \<notin> set (tl q)" "\<forall>x\<in>set qs. CHR ''|'' \<notin> set (tl x)" by simp_all
    have "CHR ''|'' \<notin> set q"
    proof
      assume "CHR ''|'' \<in> set q"
      with ih(1) obtain q' where q': "q = CHR ''|'' # q'" by (cases q) auto
      from split_pipe_prefix [of cs] q obtain r where "cs = q @ r" by auto
      with q' have cs: "c # cs = [c] @ CHR ''|'' # (q' @ r)" by simp
      with Q obtain a' b' where "[c] = a' @ '' ''" "q' @ r = CHR '' '' # b'" by blast
      with cs have "c # cs = '' | '' @ b'" by simp
      then have "startsWith '' | '' (c # cs)" unfolding startsWith_iff by blast
      with False show False by simp
    qed
    with False q ih show ?thesis by simp
  qed
qed

lemma checked_no_inner_pipe:
  assumes "\<not> pipeSpacingError c"
  shows "\<forall>x\<in>set (split_pipe c). CHR ''|'' \<notin> set (tl x)"
proof (rule split_pipe_tl_no_pipe, intro allI impI)
  fix a b
  assume "c = a @ CHR ''|'' # b" "a \<noteq> []"
  with assms show "(\<exists>a'. a = a' @ '' '') \<and> (\<exists>b'. b = CHR '' '' # b')"
    unfolding pipeSpacingError_iff by blast
qed

lemma checked_boundaries:
  assumes ok: "\<not> pipeSpacingError c" and sp: "split_pipe c = ps1 @ x # ps2" and x: "x \<noteq> []"
  shows "ps2 \<noteq> [] \<longrightarrow> last x \<noteq> CHR '' ''" and "ps1 \<noteq> [] \<longrightarrow> hd x \<noteq> CHR '' ''"
proof -
  have c: "c = join '' | '' (ps1 @ x # ps2)"
    using join_split_pipe [of c] sp by simp
  show "ps2 \<noteq> [] \<longrightarrow> last x \<noteq> CHR '' ''"
  proof
    assume ne: "ps2 \<noteq> []"
    have "c = join '' | '' ((ps1 @ [x]) @ ps2)" using c by simp
    also have "\<dots> = join '' | '' (ps1 @ [x]) @ '' | '' @ join '' | '' ps2"
      using ne by (intro join_append) simp_all
    finally have "c = (join '' | '' (ps1 @ [x]) @ '' '') @ CHR ''|'' # ('' '' @ join '' | '' ps2)"
      by simp
    with ok obtain a' where "join '' | '' (ps1 @ [x]) @ '' '' = a' @ '' ''"
      "a' = [] \<or> last a' \<noteq> CHR '' ''"
      unfolding pipeSpacingError_iff by blast
    then have "join '' | '' (ps1 @ [x]) = [] \<or> last (join '' | '' (ps1 @ [x])) \<noteq> CHR '' ''"
      by auto
    moreover have "join '' | '' (ps1 @ [x]) \<noteq> []"
      using x by (intro join_not_Nil) simp_all
    moreover have "last (join '' | '' (ps1 @ [x])) = last x"
      using x last_join [of "ps1 @ [x]" "'' | ''"] by simp
    ultimately show "last x \<noteq> CHR '' ''" by simp
  qed
  show "ps1 \<noteq> [] \<longrightarrow> hd x \<noteq> CHR '' ''"
  proof
    assume ne: "ps1 \<noteq> []"
    have "c = join '' | '' ps1 @ '' | '' @ join '' | '' (x # ps2)"
      unfolding c using ne by (intro join_append) simp_all
    then have "c = (join '' | '' ps1 @ '' '') @ CHR ''|'' # ('' '' @ join '' | '' (x # ps2))"
      by simp
    with ok obtain b' where "'' '' @ join '' | '' (x # ps2) = CHR '' '' # b'"
      "b' = [] \<or> hd b' \<noteq> CHR '' ''"
      unfolding pipeSpacingError_iff by blast
    then have "join '' | '' (x # ps2) = [] \<or> hd (join '' | '' (x # ps2)) \<noteq> CHR '' ''"
      by auto
    moreover have "hd (join '' | '' (x # ps2)) = hd x"
      using x hd_join [of "x # ps2" "'' | ''"] by simp
    moreover have "join '' | '' (x # ps2) \<noteq> []"
      using x by (cases ps2) auto
    ultimately show "hd x \<noteq> CHR '' ''" by simp
  qed
qed

lemma checked_section_shape:
  assumes ok: "\<not> pipeSpacingError (trim i)" and x: "x \<in> set (split_pipe (trim i))"
    and ne: "x \<noteq> []" and k: "hd (trim x) \<noteq> CHR ''|''"
  shows "CHR ''|'' \<notin> set x \<and> hd x \<noteq> CHR '' '' \<and> last x \<noteq> CHR '' ''"
proof -
  let ?c = "trim i"
  from x obtain ps1 ps2 where sp: "split_pipe ?c = ps1 @ x # ps2"
    by (auto simp: in_set_conv_decomp)
  have j: "?c = join '' | '' (ps1 @ x # ps2)"
    using join_split_pipe [of ?c] sp by simp
  have cne: "?c \<noteq> []"
  proof
    assume "?c = []"
    then have "split_pipe ?c = [[]]" by simp
    with sp ne show False by (cases ps1) auto
  qed
  note e = trim_ends [OF cne]
  have h: "hd x \<noteq> CHR '' ''"
  proof (cases "ps1 = []")
    case True
    with sp split_pipe_prefix [of ?c] obtain r where "?c = x @ r" by auto
    with ne have "hd ?c = hd x" by simp
    with e(1) show ?thesis by auto
  next
    case False
    with checked_boundaries(2) [OF ok sp ne] show ?thesis by simp
  qed
  have l: "last x \<noteq> CHR '' ''"
  proof (cases "ps2 = []")
    case True
    with j ne have "last ?c = last x"
      using last_join [of "ps1 @ [x]" "'' | ''"] by simp
    with e(2) show ?thesis by auto
  next
    case False
    with checked_boundaries(1) [OF ok sp ne] show ?thesis by simp
  qed
  have "hd x \<noteq> CHR ''|''"
  proof
    assume p: "hd x = CHR ''|''"
    then have "\<not> isWhiteSpace (hd x)" by simp
    from hd_trim [OF ne this] p k show False by simp
  qed
  moreover from checked_no_inner_pipe [OF ok] x have "CHR ''|'' \<notin> set (tl x)" by blast
  ultimately have "CHR ''|'' \<notin> set x" using ne by (cases x) auto
  with h l show ?thesis by simp
qed

section \<open>Exchanging optional sections\<close>

text \<open>
  What the switch does to the variables is fixed by the keyword and the value of the
  section: a HEADERS or BODY section stores its decoded value, a QUERY section stores its
  object and appends its query string to \<open>fullUrl\<close>.
\<close>

lemma try_block_store_frame:
  assumes "k = ''HEADERS'' \<or> k = ''BODY''" "try_block jp enc k v st = Inr st'"
  shows "\<exists>x. \<forall>s s'. try_block jp enc k v s = Inr s' \<longleftrightarrow>
           s' = (if k = ''HEADERS'' then s\<lparr>req := (req s)\<lparr>headers := x\<rparr>\<rparr>
                 else s\<lparr>req := (req s)\<lparr>body := x\<rparr>\<rparr>)"
  using assms(1)
proof
  assume k: "k = ''HEADERS''"
  with assms(2) obtain h where h: "jp v = Some h" "typeof_object h" "\<not> isArray h"
    by (auto simp: try_block_HEADERS_iff)
  then have "\<forall>s s'. try_block jp enc k v s = Inr s' \<longleftrightarrow>
           s' = (if k = ''HEADERS'' then s\<lparr>req := (req s)\<lparr>headers := h\<rparr>\<rparr>
                 else s\<lparr>req := (req s)\<lparr>body := h\<rparr>\<rparr>)"
    by (simp add: k try_block_HEADERS_iff)
  then show ?thesis ..
next
  assume k: "k = ''BODY''"
  with assms(2) obtain b where b: "jp v = Some b"
    by (auto simp: try_block_BODY_iff)
  then have "\<forall>s s'. try_block jp enc k v s = Inr s' \<longleftrightarrow>
           s' = (if k = ''HEADERS'' then s\<lparr>req := (req s)\<lparr>headers := b\<rparr>\<rparr>
                 else s\<lparr>req := (req s)\<lparr>body := b\<rparr>\<rparr>)"
    by (simp add: k try_block_BODY_iff)
  then show ?thesis ..
qed

lemma try_block_QUERY_frame:
  assumes "try_block jp enc ''QUERY'' v st = Inr st'"
  shows "\<exists>es qs. \<forall>s s'. try_block jp enc ''QUERY'' v s = Inr s' \<longleftrightarrow>
           s' = (if es = [] then s\<lparr>req := (req s)\<lparr>query := JObject es\<rparr>\<rparr>
                 else s\<lparr>fullUrl_var := appendQuery (fullUrl_var s) qs,
                        req := (req s)\<lparr>query := JObject es,
                                        fullUrl := appendQuery (fullUrl_var s) qs\<rparr>\<rparr>)"
proof -
  from assms obtain es where es: "jp v = Some (JObject es)"
    "\<forall>(k, v)\<in>set (new_Map es). enc v \<noteq> None"
    unfolding try_block_QUERY_iff by blast
  let ?qs = "join ''&'' (map (\<lambda>(k, v). k @ ''='' @ the (enc v)) (new_Map es))"
  have "\<forall>s s'. try_block jp enc ''QUERY'' v s = Inr s' \<longleftrightarrow>
           s' = (if es = [] then s\<lparr>req := (req s)\<lparr>query := JObject es\<rparr>\<rparr>
                 else s\<lparr>fullUrl_var := appendQuery (fullUrl_var s) ?qs,
                        req := (req s)\<lparr>query := JObject es,
                                        fullUrl := appendQuery (fullUrl_var s) ?qs\<rparr>\<rparr>)"
    unfolding try_block_QUERY_iff using es by simp
  then show ?thesis by blast
qed

lemma optional_section_swap:
  assumes p: "optional_section jp enc p st = Inr st1"
    and q: "optional_section jp enc q st1 = Inr st2"
  shows "\<exists>st1'. optional_section jp enc q st = Inr st1' \<and> optional_section jp enc p st1' = Inr st2"
proof -
  let ?kp = "keyword_of p" and ?kq = "keyword_of q"
  let ?vp = "value_of p" and ?vq = "value_of q"
  let ?P = "processedSections st"
  from p have sp: "\<not> consecutiveSpaces p" "\<exists>i. indexOf CHR '' '' (trim p) = Some i"
    "?kp = ''HEADERS'' \<or> ?kp = ''QUERY'' \<or> ?kp = ''BODY''" "?kp \<notin> ?P"
    and tp: "try_block jp enc ?kp ?vp (st\<lparr>processedSections := insert ?kp ?P\<rparr>) = Inr st1"
    by (simp_all add: optional_section_Inr_iff)
  from optional_section_processedSections [OF p] have P1: "processedSections st1 = insert ?kp ?P"
    by simp
  from q P1 have sq: "\<not> consecutiveSpaces q" "\<exists>i. indexOf CHR '' '' (trim q) = Some i"
    "?kq = ''HEADERS'' \<or> ?kq = ''QUERY'' \<or> ?kq = ''BODY''" "?kq \<notin> ?P" "?kq \<noteq> ?kp"
    and tq: "try_block jp enc ?kq ?vq
               (st1\<lparr>processedSections := insert ?kq (insert ?kp ?P)\<rparr>) = Inr st2"
    by (auto simp: optional_section_Inr_iff)
  have "\<exists>st1'. try_block jp enc ?kq ?vq (st\<lparr>processedSections := insert ?kq ?P\<rparr>) = Inr st1'
      \<and> try_block jp enc ?kp ?vp
           (st1'\<lparr>processedSections := insert ?kp (insert ?kq ?P)\<rparr>) = Inr st2"
  proof -
    consider (stores) "?kp \<noteq> ''QUERY''" "?kq \<noteq> ''QUERY''"
      | (query_first) "?kp = ''QUERY''" "?kq \<noteq> ''QUERY''"
      | (query_second) "?kp \<noteq> ''QUERY''" "?kq = ''QUERY''"
      using sq(5) by fastforce
    then show ?thesis
    proof cases
      case stores
      with sp(3) sq(3) have kp: "?kp = ''HEADERS'' \<or> ?kp = ''BODY''"
        and kq: "?kq = ''HEADERS'' \<or> ?kq = ''BODY''" by auto
      from try_block_store_frame [OF kp tp] obtain x where
        fp: "\<And>s s'. try_block jp enc ?kp ?vp s = Inr s' \<longleftrightarrow>
           s' = (if ?kp = ''HEADERS'' then s\<lparr>req := (req s)\<lparr>headers := x\<rparr>\<rparr>
                 else s\<lparr>req := (req s)\<lparr>body := x\<rparr>\<rparr>)" by blast
      from try_block_store_frame [OF kq tq] obtain y where
        fq: "\<And>s s'. try_block jp enc ?kq ?vq s = Inr s' \<longleftrightarrow>
           s' = (if ?kq = ''HEADERS'' then s\<lparr>req := (req s)\<lparr>headers := y\<rparr>\<rparr>
                 else s\<lparr>req := (req s)\<lparr>body := y\<rparr>\<rparr>)" by blast
      from tp tq kp kq sq(5) show ?thesis
        unfolding fp fq by (auto simp: insert_commute)
    next
      case query_first
      with sq(3) have kq: "?kq = ''HEADERS'' \<or> ?kq = ''BODY''" by auto
      from try_block_QUERY_frame [of jp enc ?vp] tp query_first(1) obtain es qs where
        fp: "\<And>s s'. try_block jp enc ''QUERY'' ?vp s = Inr s' \<longleftrightarrow>
           s' = (if es = [] then s\<lparr>req := (req s)\<lparr>query := JObject es\<rparr>\<rparr>
                 else s\<lparr>fullUrl_var := appendQuery (fullUrl_var s) qs,
                        req := (req s)\<lparr>query := JObject es,
                                        fullUrl := appendQuery (fullUrl_var s) qs\<rparr>\<rparr>)"
        by metis
      from try_block_store_frame [OF kq tq] obtain y where
        fq: "\<And>s s'. try_block jp enc ?kq ?vq s = Inr s' \<longleftrightarrow>
           s' = (if ?kq = ''HEADERS'' then s\<lparr>req := (req s)\<lparr>headers := y\<rparr>\<rparr>
                 else s\<lparr>req := (req s)\<lparr>body := y\<rparr>\<rparr>)" by blast
      from tp tq kq show ?thesis
        unfolding query_first(1) fp fq by (auto simp: insert_commute)
    next
      case query_second
      with sp(3) have kp: "?kp = ''HEADERS'' \<or> ?kp = ''BODY''" by auto
      from try_block_store_frame [OF kp tp] obtain x where
        fp: "\<And>s s'. try_block jp enc ?kp ?vp s = Inr s' \<longleftrightarrow>
           s' = (if ?kp = ''HEADERS'' then s\<lparr>req := (req s)\<lparr>headers := x\<rparr>\<rparr>
                 else s\<lparr>req := (req s)\<lparr>body := x\<rparr>\<rparr>)" by blast
      from try_block_QUERY_frame [of jp enc ?vq] tq query_second(2) obtain es qs where
        fq: "\<And>s s'. try_block jp enc ''QUERY'' ?vq s = Inr s' \<longleftrightarrow>
           s' = (if es = [] then s\<lparr>req := (req s)\<lparr>query := JObject es\<rparr>\<rparr>
                 else s\<lparr>fullUrl_var := appendQuery (fullUrl_var s) qs,
                        req := (req s)\<lparr>query := JObject es,
                                        fullUrl := appendQuery (fullUrl_var s) qs\<rparr>\<rparr>)"
        by metis
      from tp tq kp show ?thesis
        unfolding query_second(2) fp fq by (auto simp: insert_commute)
    qed
  qed
  then obtain st1' where
    a: "try_block jp enc ?kq ?vq (st\<lparr>processedSections := insert ?kq ?P\<rparr>) = Inr st1'"
    and b: "try_block jp enc ?kp ?vp
           (st1'\<lparr>processedSections := insert ?kp (insert ?kq ?P)\<rparr>) = Inr st2"
    by blast
  from a sq have q': "optional_section jp enc q st = Inr st1'"
    by (simp add: optional_section_Inr_iff)
  from try_block_processedSections [OF a] have "processedSections st1' = insert ?kq ?P" by simp
  with b sp sq have "optional_section jp enc p st1' = Inr st2"
    by (auto simp: optional_section_Inr_iff)
  with q' show ?thesis by blast
qed

lemma forEach_rest_move:
  assumes "optional_section jp enc a st = Inr st1" "forEach_rest jp enc (ys @ zs) st1 = Inr st2"
  shows "forEach_rest jp enc (ys @ a # zs) st = Inr st2"
  using assms
proof (induction ys arbitrary: st st1)
  case Nil
  then show ?case by simp
next
  case (Cons y ys)
  from Cons.prems(2) obtain sty where
    y: "optional_section jp enc y st1 = Inr sty" and r: "forEach_rest jp enc (ys @ zs) sty = Inr st2"
    by (auto split: sum.splits)
  from optional_section_swap [OF Cons.prems(1) y] obtain st' where
    y': "optional_section jp enc y st = Inr st'" and a': "optional_section jp enc a st' = Inr sty"
    by blast
  from Cons.IH [OF a' r] y' show ?case by simp
qed

lemma forEach_rest_mset:
  assumes "forEach_rest jp enc xs st = Inr st'" "mset xs = mset ys"
  shows "forEach_rest jp enc ys st = Inr st'"
  using assms
proof (induction xs arbitrary: ys st)
  case Nil
  then show ?case by simp
next
  case (Cons a xs)
  from Cons.prems(1) obtain st1 where
    a: "optional_section jp enc a st = Inr st1" and r: "forEach_rest jp enc xs st1 = Inr st'"
    by (auto split: sum.splits)
  from Cons.prems(2) have "a \<in> set ys" by (metis list.set_intros(1) mset_eq_setD)
  then obtain ys1 ys2 where ys: "ys = ys1 @ a # ys2" by (auto simp: in_set_conv_decomp)
  with Cons.prems(2) have "mset xs = mset (ys1 @ ys2)" by simp
  from Cons.IH [OF r this] have "forEach_rest jp enc (ys1 @ ys2) st1 = Inr st'" .
  from forEach_rest_move [OF a this] ys show ?case by simp
qed

lemma forEach_rest_sections:
  "forEach_rest jp enc ps st = Inr st' \<Longrightarrow>
     \<forall>x\<in>set ps. x \<noteq> [] \<and> hd (trim x) \<noteq> CHR ''|''"
proof (induction ps arbitrary: st)
  case Nil
  then show ?case by simp
next
  case (Cons p ps)
  from Cons.prems obtain st1 where
    s: "optional_section jp enc p st = Inr st1" and r: "forEach_rest jp enc ps st1 = Inr st'"
    by (auto split: sum.splits)
  from s obtain i where i: "indexOf CHR '' '' (trim p) = Some i"
    and k: "keyword_of p = ''HEADERS'' \<or> keyword_of p = ''QUERY'' \<or> keyword_of p = ''BODY''"
    by (auto simp: optional_section_Inr_iff)
  from keyword_value_split(1) [OF i] k have "p \<noteq> [] \<and> hd (trim p) \<noteq> CHR ''|''"
    by auto
  with Cons.IH [OF r] show ?case by simp
qed

lemma accepted_sections_shape:
  assumes "compile jp enc (Str s) = Inr res"
  shows "\<forall>x\<in>set (split_pipe (reqlineContent_of s)).
           x \<noteq> [] \<and> CHR ''|'' \<notin> set x \<and> hd x \<noteq> CHR '' '' \<and> last x \<noteq> CHR '' ''"
proof -
  obtain m r where res: "res = (m, r)" by (cases res)
  from assms res obtain h u rest url st where
    ok: "\<not> pipeSpacingError (reqlineContent_of s)"
    and sp: "split_pipe (reqlineContent_of s) = h # u # rest"
    and h: "http_section h = Inr m" and u: "url_section u = Inr url"
    and f: "forEach_rest jp enc rest (initial_locals url) = Inr st"
    by (auto simp: compile_Inr_iff)
  from h have "trim h = ''HTTP '' @ m" by (simp add: http_section_Inr_iff)
  then have h': "h \<noteq> [] \<and> hd (trim h) \<noteq> CHR ''|''" by auto
  from u have "trim u = ''URL '' @ url" by (simp add: url_section_Inr_iff)
  then have u': "u \<noteq> [] \<and> hd (trim u) \<noteq> CHR ''|''" by auto
  from forEach_rest_sections [OF f] h' u' sp
  have all: "\<forall>x\<in>set (split_pipe (reqlineContent_of s)). x \<noteq> [] \<and> hd (trim x) \<noteq> CHR ''|''"
    by simp
  show ?thesis
  proof
    fix x
    assume x: "x \<in> set (split_pipe (reqlineContent_of s))"
    with all have "x \<noteq> []" "hd (trim x) \<noteq> CHR ''|''" by simp_all
    with checked_section_shape [of "slice_inner s" x] ok x
    show "x \<noteq> [] \<and> CHR ''|'' \<notin> set x \<and> hd x \<noteq> CHR '' '' \<and> last x \<noteq> CHR '' ''"
      by (simp add: reqlineContent_of_def)
  qed
qed

lemma compile_reordered:
  assumes w: "startsWith ''['' s2" "endsWith '']'' s2"
    and sp1: "split_pipe (reqlineContent_of s1) = h # u # rest1"
    and sp2: "split_pipe (reqlineContent_of s2) = h # u # rest2"
    and perm: "mset rest1 = mset rest2"
    and c: "compile jp enc (Str s1) = Inr res"
  shows "compile jp enc (Str s2) = Inr res"
proof -
  obtain m r where res: "res = (m, r)" by (cases res)
  from c res sp1 obtain url st where
    h: "http_section h = Inr m" and u: "url_section u = Inr url"
    and f: "forEach_rest jp enc rest1 (initial_locals url) = Inr st" and r: "r = req st"
    by (auto simp: compile_Inr_iff)
  from perm have "set rest1 = set rest2" by (rule mset_eq_setD)
  with sp1 sp2 have "set (split_pipe (reqlineContent_of s2)) = set (split_pipe (reqlineContent_of s1))"
    by simp
  with accepted_sections_shape [OF c]
  have "\<forall>x\<in>set (split_pipe (reqlineContent_of s2)).
           x \<noteq> [] \<and> CHR ''|'' \<notin> set x \<and> hd x \<noteq> CHR '' '' \<and> last x \<noteq> CHR '' ''"
    by simp
  from join_passes_pipe_checks [OF this]
  have ok: "\<not> pipeSpacingError (reqlineContent_of s2)"
    by (simp add: join_split_pipe)
  from forEach_rest_mset [OF f perm]
  have "forEach_rest jp enc rest2 (initial_locals url) = Inr st" .
  with compile_sections [OF w ok sp2 h u, of jp enc] r res show ?thesis by simp
qed

section \<open>Examples\<close>

text \<open>
  Called on their own, the two sections do reach the keyword branches; and two runs of the
  whole validation.
\<close>

lemma http_section_branch_live:
  "http_section ''XTTP GET'' = Inl (AppError MISSING_HTTP_KEYWORD 400)"
  by code_simp

lemma url_section_branch_live:
  "url_section ''URI https://a.com/x'' = Inl (AppError MISSING_URL_KEYWORD 400)"
  by code_simp

lemma compile_two_sections_example:
  "compile JSON_parse_sample encodeURIComponent_sample (Str ''[HTTP GET | URL https://a.com/x]'')
     = Inr (''GET'', \<lparr>query = JObject [], body = JObject [], headers = JObject [],
                      fullUrl = ''https://a.com/x''\<rparr>)"
  by code_simp

lemma compile_https_first_example:
  "compile JSON_parse_sample encodeURIComponent_sample (Str ''[HTTPS GET | URL https://a.com/x]'')
     = Inl (AppError HTTP_NOT_FIRST 400)"
  by code_simp

section \<open>The keyword branches of the first two sections\<close>

text \<open>
  Claim C9. The branches that raise \<open>MISSING_HTTP_KEYWORD\<close> and \<open>MISSING_URL_KEYWORD\<close>
  are never taken. When the trimmed first section starts with \<open>HTTP\<close> and a space, the
  first space is at index 4 and the keyword read before it is \<open>HTTP\<close>; when the trimmed
  second section starts with \<open>URL\<close> and a space, the first space is at index 3 and the
  keyword is \<open>URL\<close>. The service checks both prefixes before it reads the keywords, so
  for every argument its result is neither of the two errors.
\<close>

theorem keyword_error_branches_unreachable:
  "(startsWith ''HTTP '' (trim httpPart) \<longrightarrow>
      indexOf CHR '' '' (trim httpPart) = Some 4 \<and> take 4 (trim httpPart) = ''HTTP'')
   \<and> (startsWith ''URL '' (trim urlPart) \<longrightarrow>
      indexOf CHR '' '' (trim urlPart) = Some 3 \<and> take 3 (trim urlPart) = ''URL'')
   \<and> compile JSON_parse encodeURIComponent arg \<noteq> Inl (AppError MISSING_HTTP_KEYWORD c)
   \<and> compile JSON_parse encodeURIComponent arg \<noteq> Inl (AppError MISSING_URL_KEYWORD c)"
proof -
  have "compile JSON_parse encodeURIComponent arg \<noteq> Inl (AppError MISSING_HTTP_KEYWORD c)"
    using compile_errors [of JSON_parse encodeURIComponent arg "AppError MISSING_HTTP_KEYWORD c"]
    by auto
  moreover
  have "compile JSON_parse encodeURIComponent arg \<noteq> Inl (AppError MISSING_URL_KEYWORD c)"
    using compile_errors [of JSON_parse encodeURIComponent arg "AppError MISSING_URL_KEYWORD c"]
    by auto
  ultimately show ?thesis
    using http_keyword_extracted [of "trim httpPart"] url_keyword_extracted [of "trim urlPart"]
    by blast
qed

theorem keyword_error_branches_unreachable_witness:
  "startsWith ''HTTP '' (trim ''HTTP GET'')
   \<and> indexOf CHR '' '' (trim ''HTTP GET'') = Some 4 \<and> take 4 (trim ''HTTP GET'') = ''HTTP''
   \<and> startsWith ''URL '' (trim ''URL https://a.com/x'')
   \<and> indexOf CHR '' '' (trim ''URL https://a.com/x'') = Some 3
   \<and> take 3 (trim ''URL https://a.com/x'') = ''URL''
   \<and> compile JSON_parse_sample encodeURIComponent_sample (Str ''[HTTPS GET | URL https://a.com/x]'')
         \<noteq> Inl (AppError MISSING_HTTP_KEYWORD 400)
   \<and> compile JSON_parse_sample encodeURIComponent_sample (Str ''[HTTPS GET | URL https://a.com/x]'')
         \<noteq> Inl (AppError MISSING_URL_KEYWORD 400)"
proof -
  have a: "startsWith ''HTTP '' (trim ''HTTP GET'')" by code_simp
  have b: "startsWith ''URL '' (trim ''URL https://a.com/x'')" by code_simp
  show ?thesis
    using a b
      keyword_error_branches_unreachable [of "''HTTP GET''" "''URL https://a.com/x''"
        JSON_parse_sample encodeURIComponent_sample "Str ''[HTTPS GET | URL https://a.com/x]''" 400]
    by blast
qed

section \<open>Status codes\<close>

text \<open>
  Claim C8. Every error of the validation and of the building carries the status 400, and
  the service returns it as it is. When the transport rejects, the error of the service
  carries the message of the rejection and the status of its response, or 500 when it has
  no response. When the transport resolves, its status is the \<open>httpStatus\<close> of the
  result: a transport that resolves with 404 gives \<open>httpStatus = 404\<close>.
\<close>

theorem status_codes:
  "(compile JSON_parse encodeURIComponent arg = Inl e \<longrightarrow>
      statusCode e = 400
      \<and> parse JSON_parse encodeURIComponent httpRequest now_start now_stop arg = Inl e)
   \<and> (compile JSON_parse encodeURIComponent arg = Inr (method, request)
        \<and> httpRequest \<lparr>arg_method = method, arg_url = fullUrl request,
                         arg_data = body request, arg_headers = headers request\<rparr> = Inl error \<longrightarrow>
      parse JSON_parse encodeURIComponent httpRequest now_start now_stop arg
        = Inl (AppError (Text (err_message error))
                 (case err_response_status error of Some s \<Rightarrow> s | None \<Rightarrow> 500)))
   \<and> (compile JSON_parse encodeURIComponent arg = Inr (method, request)
        \<and> httpRequest \<lparr>arg_method = method, arg_url = fullUrl request,
                         arg_data = body request, arg_headers = headers request\<rparr> = Inr result \<longrightarrow>
      parse JSON_parse encodeURIComponent httpRequest now_start now_stop arg
        = Inr \<lparr>exec_request = request,
               exec_response = \<lparr>httpStatus = res_status result, duration = now_stop - now_start,
                 requestStartTimestamp = now_start, requestStopTimestamp = now_stop,
                 responseData = res_data result\<rparr>\<rparr>)"
  by (auto simp: parse_def throwAppError_def dest: compile_errors)

theorem status_codes_witness:
  "compile JSON_parse_sample encodeURIComponent_sample (Str ''[HTTPS GET | URL https://a.com/x]'')
     = Inl (AppError HTTP_NOT_FIRST 400)
   \<and> statusCode (AppError HTTP_NOT_FIRST 400) = 400
   \<and> parse JSON_parse_sample encodeURIComponent_sample
        (\<lambda>a. Inl \<lparr>err_message = ''Not Found'', err_response_status = Some 404\<rparr>) 1000 1250
        (Str ''[HTTP GET | URL https://a.com/x]'')
      = Inl (AppError (Text ''Not Found'') 404)
   \<and> parse JSON_parse_sample encodeURIComponent_sample
        (\<lambda>a. Inl \<lparr>err_message = ''socket hang up'', err_response_status = None\<rparr>) 1000 1250
        (Str ''[HTTP GET | URL https://a.com/x]'')
      = Inl (AppError (Text ''socket hang up'') 500)
   \<and> parse JSON_parse_sample encodeURIComponent_sample
        (\<lambda>a. Inr \<lparr>res_data = JNull, res_status = 404\<rparr>) 1000 1250
        (Str ''[HTTP GET | URL https://a.com/x]'')
      = Inr \<lparr>exec_request = \<lparr>query = JObject [], body = JObject [], headers = JObject [],
                               fullUrl = ''https://a.com/x''\<rparr>,
             exec_response = \<lparr>httpStatus = 404, duration = 250, requestStartTimestamp = 1000,
               requestStopTimestamp = 1250, responseData = JNull\<rparr>\<rparr>"
  using compile_https_first_example compile_two_sections_example
    status_codes [of JSON_parse_sample encodeURIComponent_sample
      "Str ''[HTTPS GET | URL https://a.com/x]''" "AppError HTTP_NOT_FIRST 400"]
    status_codes [of JSON_parse_sample encodeURIComponent_sample
      "Str ''[HTTP GET | URL https://a.com/x]''" _
      "\<lambda>a. Inl \<lparr>err_message = ''Not Found'', err_response_status = Some 404\<rparr>" 1000 1250
      "''GET''" "\<lparr>query = JObject [], body = JObject [], headers = JObject [],
                               fullUrl = ''https://a.com/x''\<rparr>"
      "\<lparr>err_message = ''Not Found'', err_response_status = Some 404\<rparr>"]
    status_codes [of JSON_parse_sample encodeURIComponent_sample
      "Str ''[HTTP GET | URL https://a.com/x]''" _
      "\<lambda>a. Inl \<lparr>err_message = ''socket hang up'', err_response_status = None\<rparr>" 1000 1250
      "''GET''" "\<lparr>query = JObject [], body = JObject [], headers = JObject [],
                               fullUrl = ''https://a.com/x''\<rparr>"
      "\<lparr>err_message = ''socket hang up'', err_response_status = None\<rparr>"]
    status_codes [of JSON_parse_sample encodeURIComponent_sample
      "Str ''[HTTP GET | URL https://a.com/x]''" _
      "\<lambda>a. Inr \<lparr>res_data = JNull, res_status = 404\<rparr>" 1000 1250
      "''GET''" "\<lparr>query = JObject [], body = JObject [], headers = JObject [],
                               fullUrl = ''https://a.com/x''\<rparr>" _
      "\<lparr>res_data = JNull, res_status = 404\<rparr>"]
  by simp

section \<open>The query string in \<open>fullUrl\<close>\<close>

text \<open>
  Claim C2. Take a successful run on a string whose sections are \<open>h\<close>, \<open>u\<close> and the
  optional sections \<open>rest\<close>, and let \<open>url\<close> be the value of the URL section. When no
  optional section has the keyword \<open>QUERY\<close>, \<open>fullUrl\<close> is \<open>url\<close>. When a section has
  the keyword \<open>QUERY\<close> and its value decodes to an object with the entries \<open>es\<close>:
  if \<open>es\<close> is empty, \<open>fullUrl\<close> is \<open>url\<close>; otherwise every value is encoded, and
  \<open>fullUrl\<close> is \<open>url\<close>, then \<open>?\<close> when \<open>url\<close> holds no \<open>?\<close> and \<open>&\<close> when it does, then the
  pairs \<open>key=encodeURIComponent(value)\<close> joined with \<open>&\<close>. The pairs are those of the Map
  built from the entries, which are the entries themselves when each key occurs once, as
  in an object. In particular, when \<open>JSON.parse\<close> and \<open>encodeURIComponent\<close> have their
  values at \<open>{"a":"b c"}\<close> and \<open>b c\<close>, the line
  \<open>[HTTP GET | URL https://api.test/x | QUERY {"a":"b c"}]\<close> gives
  \<open>fullUrl = https://api.test/x?a=b%20c\<close>.
\<close>

theorem fullUrl_query_string:
  \<open>(compile jp enc (Str s) = Inr (m, r) \<and> split_pipe (reqlineContent_of s) = h # u # rest
      \<and> url_section u = Inr url \<longrightarrow>
      ((\<forall>p\<in>set rest. keyword_of p \<noteq> ''QUERY'') \<longrightarrow> fullUrl r = url)
      \<and> (\<forall>p\<in>set rest. \<forall>es.
            keyword_of p = ''QUERY'' \<and> jp (value_of p) = Some (JObject es) \<longrightarrow>
              (es = [] \<longrightarrow> fullUrl r = url)
              \<and> (es \<noteq> [] \<longrightarrow>
                    (\<forall>(k, v)\<in>set (new_Map es). enc v \<noteq> None)
                    \<and> fullUrl r =
                        url @ (if CHR ''?'' \<in> set url then ''&'' else ''?'')
                          @ join ''&'' (map (\<lambda>(k, v). k @ ''='' @ the (enc v)) (new_Map es)))
              \<and> (distinct (map fst es) \<longrightarrow> new_Map es = es)))
   \<and> (jp ''{"a":"b c"}'' = Some (JObject [(''a'', JString ''b c'')])
        \<and> enc (JString ''b c'') = Some ''b%20c'' \<longrightarrow>
        compile jp enc (Str ''[HTTP GET | URL https://api.test/x | QUERY {"a":"b c"}]'')
          = Inr (''GET'', \<lparr>query = JObject [(''a'', JString ''b c'')], body = JObject [],
                           headers = JObject [], fullUrl = ''https://api.test/x?a=b%20c''\<rparr>))\<close>
proof (rule conjI)
  show \<open>compile jp enc (Str s) = Inr (m, r) \<and> split_pipe (reqlineContent_of s) = h # u # rest
      \<and> url_section u = Inr url \<longrightarrow>
      ((\<forall>p\<in>set rest. keyword_of p \<noteq> ''QUERY'') \<longrightarrow> fullUrl r = url)
      \<and> (\<forall>p\<in>set rest. \<forall>es.
            keyword_of p = ''QUERY'' \<and> jp (value_of p) = Some (JObject es) \<longrightarrow>
              (es = [] \<longrightarrow> fullUrl r = url)
              \<and> (es \<noteq> [] \<longrightarrow>
                    (\<forall>(k, v)\<in>set (new_Map es). enc v \<noteq> None)
                    \<and> fullUrl r =
                        url @ (if CHR ''?'' \<in> set url then ''&'' else ''?'')
                          @ join ''&'' (map (\<lambda>(k, v). k @ ''='' @ the (enc v)) (new_Map es)))
              \<and> (distinct (map fst es) \<longrightarrow> new_Map es = es))\<close>
  proof (rule impI)
    assume a: "compile jp enc (Str s) = Inr (m, r)
        \<and> split_pipe (reqlineContent_of s) = h # u # rest \<and> url_section u = Inr url"
    then obtain st where st: "forEach_rest jp enc rest (initial_locals url) = Inr st" "r = req st"
      by (auto simp: compile_Inr_iff)
    have one: "(\<forall>p\<in>set rest. keyword_of p \<noteq> ''QUERY'') \<longrightarrow> fullUrl r = url"
      using forEach_rest_fullUrl(1) [OF st(1)] st(2) by simp
    have two: "(es = [] \<longrightarrow> fullUrl r = url)
              \<and> (es \<noteq> [] \<longrightarrow>
                    (\<forall>(k, v)\<in>set (new_Map es). enc v \<noteq> None)
                    \<and> fullUrl r =
                        url @ (if CHR ''?'' \<in> set url then ''&'' else ''?'')
                          @ join ''&'' (map (\<lambda>(k, v). k @ ''='' @ the (enc v)) (new_Map es)))
              \<and> (distinct (map fst es) \<longrightarrow> new_Map es = es)"
      if p: "p \<in> set rest"
        and k: "keyword_of p = ''QUERY'' \<and> jp (value_of p) = Some (JObject es)"
      for p es
      using forEach_rest_fullUrl(2) [OF st(1) p, of es] k st(2)
      by (simp add: appendQuery_eq new_Map_distinct)
    from one two show "((\<forall>p\<in>set rest. keyword_of p \<noteq> ''QUERY'') \<longrightarrow> fullUrl r = url)
      \<and> (\<forall>p\<in>set rest. \<forall>es.
            keyword_of p = ''QUERY'' \<and> jp (value_of p) = Some (JObject es) \<longrightarrow>
              (es = [] \<longrightarrow> fullUrl r = url)
              \<and> (es \<noteq> [] \<longrightarrow>
                    (\<forall>(k, v)\<in>set (new_Map es). enc v \<noteq> None)
                    \<and> fullUrl r =
                        url @ (if CHR ''?'' \<in> set url then ''&'' else ''?'')
                          @ join ''&'' (map (\<lambda>(k, v). k @ ''='' @ the (enc v)) (new_Map es)))
              \<and> (distinct (map fst es) \<longrightarrow> new_Map es = es))"
      by blast
  qed
next
  show \<open>jp ''{"a":"b c"}'' = Some (JObject [(''a'', JString ''b c'')])
        \<and> enc (JString ''b c'') = Some ''b%20c'' \<longrightarrow>
        compile jp enc (Str ''[HTTP GET | URL https://api.test/x | QUERY {"a":"b c"}]'')
          = Inr (''GET'', \<lparr>query = JObject [(''a'', JString ''b c'')], body = JObject [],
                           headers = JObject [], fullUrl = ''https://api.test/x?a=b%20c''\<rparr>)\<close>
    using compile_query_example by blast
qed

theorem fullUrl_query_string_witness:
  \<open>compile JSON_parse_sample encodeURIComponent_sample
      (Str ''[HTTP GET | URL https://api.test/x | QUERY {"a":"b c"}]'')
     = Inr (''GET'', \<lparr>query = JObject [(''a'', JString ''b c'')], body = JObject [],
                      headers = JObject [], fullUrl = ''https://api.test/x?a=b%20c''\<rparr>)
   \<and> split_pipe (reqlineContent_of ''[HTTP GET | URL https://api.test/x | QUERY {"a":"b c"}]'')
       = [''HTTP GET'', ''URL https://api.test/x'', ''QUERY {"a":"b c"}'']
   \<and> url_section ''URL https://api.test/x'' = Inr ''https://api.test/x''
   \<and> keyword_of ''QUERY {"a":"b c"}'' = ''QUERY''
   \<and> JSON_parse_sample (value_of ''QUERY {"a":"b c"}'') = Some (JObject [(''a'', JString ''b c'')])
   \<and> fullUrl \<lparr>query = JObject [(''a'', JString ''b c'')], body = JObject [],
                headers = JObject [], fullUrl = ''https://api.test/x?a=b%20c''\<rparr>
       = ''https://api.test/x'' @ ''?''
           @ join ''&'' (map (\<lambda>(k, v). k @ ''='' @ the (encodeURIComponent_sample v))
                          [(''a'', JString ''b c'')])\<close>
proof -
  let ?s = \<open>''[HTTP GET | URL https://api.test/x | QUERY {"a":"b c"}]''\<close>
  let ?r = \<open>\<lparr>query = JObject [(''a'', JString ''b c'')], body = JObject [],
                headers = JObject [], fullUrl = ''https://api.test/x?a=b%20c''\<rparr>\<close>
  have j: \<open>JSON_parse_sample ''{"a":"b c"}'' = Some (JObject [(''a'', JString ''b c'')])
        \<and> encodeURIComponent_sample (JString ''b c'') = Some ''b%20c''\<close>
    by code_simp
  have c: "compile JSON_parse_sample encodeURIComponent_sample (Str ?s) = Inr (''GET'', ?r)"
    using j fullUrl_query_string [of JSON_parse_sample encodeURIComponent_sample] by blast
  have f: \<open>split_pipe (reqlineContent_of ?s)
       = [''HTTP GET'', ''URL https://api.test/x'', ''QUERY {"a":"b c"}'']\<close>
    \<open>url_section ''URL https://api.test/x'' = Inr ''https://api.test/x''\<close>
    \<open>keyword_of ''QUERY {"a":"b c"}'' = ''QUERY''\<close>
    \<open>JSON_parse_sample (value_of ''QUERY {"a":"b c"}'') = Some (JObject [(''a'', JString ''b c'')])\<close>
    by code_simp+
  have n: "new_Map [(''a'', JString ''b c'')] = [(''a'', JString ''b c'')]"
    by (simp add: new_Map_def)
  have "fullUrl ?r = ''https://api.test/x'' @ (if CHR ''?'' \<in> set ''https://api.test/x'' then ''&'' else ''?'')
           @ join ''&'' (map (\<lambda>(k, v). k @ ''='' @ the (encodeURIComponent_sample v))
                          (new_Map [(''a'', JString ''b c'')]))"
    using fullUrl_query_string [of JSON_parse_sample encodeURIComponent_sample ?s "''GET''" ?r
        "''HTTP GET''" "''URL https://api.test/x''" \<open>[''QUERY {"a":"b c"}'']\<close> "''https://api.test/x''"]
      c f
    by fastforce
  then have "fullUrl ?r = ''https://api.test/x'' @ ''?''
           @ join ''&'' (map (\<lambda>(k, v). k @ ''='' @ the (encodeURIComponent_sample v))
                          [(''a'', JString ''b c'')])"
    by (simp only: n) simp
  with c f show ?thesis by blast
qed

section \<open>Keys of the query string\<close>

text \<open>
  Claim C10, as amended. A key of the QUERY object enters \<open>fullUrl\<close> as it is, followed by
  \<open>=\<close> and the encoded value: only the value is encoded. The value of the URL section
  never holds the space character, which is the one white space the service looks for in
  it, but a key with a space puts a space into \<open>fullUrl\<close>. There is such a successful run: when
  \<open>JSON.parse\<close> and \<open>encodeURIComponent\<close> have their values at \<open>{"a b":"1"}\<close> and \<open>1\<close>, the
  line \<open>[HTTP GET | URL https://a.com/x | QUERY {"a b":"1"}]\<close> is accepted with
  \<open>fullUrl = https://a.com/x?a b=1\<close>.
\<close>

theorem query_keys_verbatim:
  \<open>(compile jp enc (Str s) = Inr (m, r) \<and> split_pipe (reqlineContent_of s) = h # u # rest
      \<and> url_section u = Inr url \<and> p \<in> set rest \<and> keyword_of p = ''QUERY''
      \<and> jp (value_of p) = Some (JObject es) \<and> (k, v) \<in> set (new_Map es) \<longrightarrow>
      CHR '' '' \<notin> set url
      \<and> (\<exists>a b. fullUrl r = a @ k @ ''='' @ the (enc v) @ b)
      \<and> (CHR '' '' \<in> set k \<longrightarrow> CHR '' '' \<in> set (fullUrl r)))
   \<and> (jp ''{"a b":"1"}'' = Some (JObject [(''a b'', JString ''1'')])
        \<and> enc (JString ''1'') = Some ''1'' \<longrightarrow>
        compile jp enc (Str ''[HTTP GET | URL https://a.com/x | QUERY {"a b":"1"}]'')
          = Inr (''GET'', \<lparr>query = JObject [(''a b'', JString ''1'')], body = JObject [],
                           headers = JObject [], fullUrl = ''https://a.com/x?a b=1''\<rparr>)
        \<and> CHR '' '' \<in> set ''https://a.com/x?a b=1'')\<close>
proof (rule conjI)
  show \<open>compile jp enc (Str s) = Inr (m, r) \<and> split_pipe (reqlineContent_of s) = h # u # rest
      \<and> url_section u = Inr url \<and> p \<in> set rest \<and> keyword_of p = ''QUERY''
      \<and> jp (value_of p) = Some (JObject es) \<and> (k, v) \<in> set (new_Map es) \<longrightarrow>
      CHR '' '' \<notin> set url
      \<and> (\<exists>a b. fullUrl r = a @ k @ ''='' @ the (enc v) @ b)
      \<and> (CHR '' '' \<in> set k \<longrightarrow> CHR '' '' \<in> set (fullUrl r))\<close>
  proof (rule impI)
    assume a: "compile jp enc (Str s) = Inr (m, r) \<and> split_pipe (reqlineContent_of s) = h # u # rest
      \<and> url_section u = Inr url \<and> p \<in> set rest \<and> keyword_of p = ''QUERY''
      \<and> jp (value_of p) = Some (JObject es) \<and> (k, v) \<in> set (new_Map es)"
    then obtain st where st: "forEach_rest jp enc rest (initial_locals url) = Inr st" "r = req st"
      by (auto simp: compile_Inr_iff)
    from a have es: "es \<noteq> []" by (auto simp: new_Map_def)
    let ?f = "\<lambda>(k, v). k @ ''='' @ the (enc v)"
    from a forEach_rest_fullUrl(2) [OF st(1), of p es] es st(2)
    have f: "fullUrl r = appendQuery url (join ''&'' (map ?f (new_Map es)))"
      by simp
    from a have "?f (k, v) \<in> set (map ?f (new_Map es))" by (metis (no_types, lifting) image_eqI list.set_map)
    then obtain c d where "join ''&'' (map ?f (new_Map es)) = c @ ?f (k, v) @ d"
      using join_contains by blast
    with f have "fullUrl r = (url @ (if CHR ''?'' \<in> set url then ''&'' else ''?'') @ c)
        @ k @ ''='' @ the (enc v) @ d"
      by (simp add: appendQuery_eq)
    then have e: "\<exists>a b. fullUrl r = a @ k @ ''='' @ the (enc v) @ b" by blast
    then have "CHR '' '' \<in> set k \<longrightarrow> CHR '' '' \<in> set (fullUrl r)" by auto
    moreover from a have "CHR '' '' \<notin> set url" by (simp add: url_section_Inr_iff)
    ultimately show "CHR '' '' \<notin> set url
      \<and> (\<exists>a b. fullUrl r = a @ k @ ''='' @ the (enc v) @ b)
      \<and> (CHR '' '' \<in> set k \<longrightarrow> CHR '' '' \<in> set (fullUrl r))"
      using e by blast
  qed
next
  show \<open>jp ''{"a b":"1"}'' = Some (JObject [(''a b'', JString ''1'')])
        \<and> enc (JString ''1'') = Some ''1'' \<longrightarrow>
        compile jp enc (Str ''[HTTP GET | URL https://a.com/x | QUERY {"a b":"1"}]'')
          = Inr (''GET'', \<lparr>query = JObject [(''a b'', JString ''1'')], body = JObject [],
                           headers = JObject [], fullUrl = ''https://a.com/x?a b=1''\<rparr>)
        \<and> CHR '' '' \<in> set ''https://a.com/x?a b=1''\<close>
    using compile_query_key_example by simp
qed

theorem query_keys_verbatim_witness:
  \<open>compile JSON_parse_sample encodeURIComponent_sample
      (Str ''[HTTP GET | URL https://a.com/x | QUERY {"a b":"1"}]'')
     = Inr (''GET'', \<lparr>query = JObject [(''a b'', JString ''1'')], body = JObject [],
                      headers = JObject [], fullUrl = ''https://a.com/x?a b=1''\<rparr>)
   \<and> CHR '' '' \<in> set ''https://a.com/x?a b=1''
   \<and> url_section ''URL https://a.com/x'' = Inr ''https://a.com/x''
   \<and> CHR '' '' \<notin> set ''https://a.com/x''\<close>
proof -
  let ?s = \<open>''[HTTP GET | URL https://a.com/x | QUERY {"a b":"1"}]''\<close>
  let ?r = \<open>\<lparr>query = JObject [(''a b'', JString ''1'')], body = JObject [],
                      headers = JObject [], fullUrl = ''https://a.com/x?a b=1''\<rparr>\<close>
  have j: \<open>JSON_parse_sample ''{"a b":"1"}'' = Some (JObject [(''a b'', JString ''1'')])
        \<and> encodeURIComponent_sample (JString ''1'') = Some ''1''\<close>
    by code_simp
  have c: "compile JSON_parse_sample encodeURIComponent_sample (Str ?s) = Inr (''GET'', ?r)
      \<and> CHR '' '' \<in> set ''https://a.com/x?a b=1''"
    using j query_keys_verbatim [of JSON_parse_sample encodeURIComponent_sample] by blast
  have f: \<open>split_pipe (reqlineContent_of ?s)
       = [''HTTP GET'', ''URL https://a.com/x'', ''QUERY {"a b":"1"}'']\<close>
    \<open>url_section ''URL https://a.com/x'' = Inr ''https://a.com/x''\<close>
    \<open>keyword_of ''QUERY {"a b":"1"}'' = ''QUERY''\<close>
    \<open>JSON_parse_sample (value_of ''QUERY {"a b":"1"}'') = Some (JObject [(''a b'', JString ''1'')])\<close>
    by code_simp+
  have n: "(''a b'', JString ''1'') \<in> set (new_Map [(''a b'', JString ''1'')])"
    by (simp add: new_Map_def)
  have "CHR '' '' \<notin> set ''https://a.com/x''"
    using query_keys_verbatim [of JSON_parse_sample encodeURIComponent_sample ?s "''GET''" ?r
        "''HTTP GET''" "''URL https://a.com/x''" \<open>[''QUERY {"a b":"1"}'']\<close> "''https://a.com/x''"
        \<open>''QUERY {"a b":"1"}''\<close> "[(''a b'', JString ''1'')]" "''a b''" "JString ''1''"]
      c f n
    by fastforce
  with c f show ?thesis by blast
qed

text \<open>
  The claim as it was stated speaks of a property of \<open>url\<close> without white space. The
  service has no such property: it rejects a space in the value of the URL section and
  no other white space, so that a value with a TAB inside is accepted.
\<close>

theorem query_keys_verbatim_counterexample:
  "isWhiteSpace (CHR 0x09)
   \<and> CHR 0x09 \<in> set (''https://a'' @ [CHR 0x09] @ ''b.com/x'')
   \<and> url_section (''URL '' @ ''https://a'' @ [CHR 0x09] @ ''b.com/x'')
       = Inr (''https://a'' @ [CHR 0x09] @ ''b.com/x'')
   \<and> compile JSON_parse_sample encodeURIComponent_sample
        (Str (''[HTTP GET | URL '' @ ''https://a'' @ [CHR 0x09] @ ''b.com/x'' @ '']''))
       = Inr (''GET'', \<lparr>query = JObject [], body = JObject [], headers = JObject [],
                        fullUrl = ''https://a'' @ [CHR 0x09] @ ''b.com/x''\<rparr>)"
  by code_simp

section \<open>Values that are not objects\<close>

text \<open>
  Claim C3. A HEADERS or QUERY value that decodes to an array or to a scalar other than
  \<open>null\<close> is rejected with the error of its section (lemma \<open>non_object_rejected\<close>). The value
  \<open>null\<close> is not: \<open>typeof null\<close> is \<open>'object'\<close> and \<open>null\<close> is no array, so the check lets it
  pass. With \<open>JSON.parse\<close> giving \<open>null\<close> at the text \<open>null\<close>, a HEADERS section \<open>null\<close> is
  accepted with \<open>headers = null\<close>, and a QUERY section \<open>null\<close> fails later, in
  \<open>Object.entries\<close>, with the message computed for a failed decoding.
\<close>

theorem null_passes_object_check:
  "jp ''null'' = Some JNull \<longrightarrow>
     compile jp enc (Str ''[HTTP GET | URL https://a.com/x | HEADERS null]'')
       = Inr (''GET'', \<lparr>query = JObject [], body = JObject [], headers = JNull,
                        fullUrl = ''https://a.com/x''\<rparr>)
     \<and> compile jp enc (Str ''[HTTP GET | URL https://a.com/x | QUERY null]'')
       = Inl (AppError (Text ''Invalid JSON format in QUERY section'') 400)"
  using compile_null_example by blast

theorem null_passes_object_check_witness:
  "JSON_parse_sample ''null'' = Some JNull
   \<and> compile JSON_parse_sample encodeURIComponent_sample
        (Str ''[HTTP GET | URL https://a.com/x | HEADERS null]'')
       = Inr (''GET'', \<lparr>query = JObject [], body = JObject [], headers = JNull,
                        fullUrl = ''https://a.com/x''\<rparr>)
   \<and> compile JSON_parse_sample encodeURIComponent_sample
        (Str ''[HTTP GET | URL https://a.com/x | QUERY null]'')
       = Inl (AppError (Text ''Invalid JSON format in QUERY section'') 400)"
proof -
  have j: "JSON_parse_sample ''null'' = Some JNull" by code_simp
  show ?thesis
    using j null_passes_object_check [of JSON_parse_sample encodeURIComponent_sample] by blast
qed

section \<open>Duplicate sections\<close>

text \<open>
  Claim C6, as amended. The sections are checked in order and the first error ends the
  run, so a repeated keyword is reported only when the run reaches its second occurrence.
  Let a string pass the checks of the brackets and of the pipe delimiters, with sections
  \<open>h\<close>, \<open>u\<close> accepted as the HTTP and URL sections, then the optional sections \<open>pre\<close>, all
  accepted, then a section \<open>d\<close> without two spaces in a row whose keyword is the keyword of
  a section of \<open>pre\<close>, then any sections \<open>post\<close>. Then the result is the error
  \<open>DUPLICATE_SECTION\<close> with status 400, wherever the two occurrences stand in the list and
  whatever the value of \<open>d\<close> is.
\<close>

theorem duplicate_section_rejected:
  "startsWith ''['' s \<and> endsWith '']'' s \<and> \<not> pipeSpacingError (reqlineContent_of s)
   \<and> split_pipe (reqlineContent_of s) = h # u # pre @ d # post
   \<and> http_section h = Inr m \<and> url_section u = Inr url
   \<and> forEach_rest jp enc pre (initial_locals url) = Inr st
   \<and> keyword_of d \<in> keyword_of ` set pre \<and> \<not> consecutiveSpaces d \<longrightarrow>
   compile jp enc (Str s) = Inl (AppError DUPLICATE_SECTION 400)"
proof (rule impI)
  assume a: "startsWith ''['' s \<and> endsWith '']'' s \<and> \<not> pipeSpacingError (reqlineContent_of s)
   \<and> split_pipe (reqlineContent_of s) = h # u # pre @ d # post
   \<and> http_section h = Inr m \<and> url_section u = Inr url
   \<and> forEach_rest jp enc pre (initial_locals url) = Inr st
   \<and> keyword_of d \<in> keyword_of ` set pre \<and> \<not> consecutiveSpaces d"
  then have run: "forEach_rest jp enc pre (initial_locals url) = Inr st" by simp
  from forEach_rest_processedSections [OF run] a
  have seen: "keyword_of d \<in> processedSections st" by simp
  from forEach_rest_keywords [OF run] a
  have kw: "keyword_of d = ''HEADERS'' \<or> keyword_of d = ''QUERY'' \<or> keyword_of d = ''BODY''"
    by auto
  from a have "\<not> consecutiveSpaces d" by simp
  from optional_section_duplicate [OF this kw seen]
  have "forEach_rest jp enc (pre @ d # post) (initial_locals url)
      = Inl (AppError DUPLICATE_SECTION 400)"
    by (simp add: forEach_rest_append run)
  moreover from a have
    "compile jp enc (Str s) =
       (case forEach_rest jp enc (pre @ d # post) (initial_locals url) of
          Inl e \<Rightarrow> Inl e
        | Inr st \<Rightarrow> Inr (m, req st))"
    by (intro compile_sections) blast+
  ultimately show "compile jp enc (Str s) = Inl (AppError DUPLICATE_SECTION 400)"
    by simp
qed

theorem duplicate_section_rejected_witness:
  "startsWith ''['' ''[HTTP GET | URL https://a.com/x | QUERY {} | HEADERS {} | QUERY null]''
   \<and> endsWith '']'' ''[HTTP GET | URL https://a.com/x | QUERY {} | HEADERS {} | QUERY null]''
   \<and> \<not> pipeSpacingError
         (reqlineContent_of ''[HTTP GET | URL https://a.com/x | QUERY {} | HEADERS {} | QUERY null]'')
   \<and> split_pipe
         (reqlineContent_of ''[HTTP GET | URL https://a.com/x | QUERY {} | HEADERS {} | QUERY null]'')
       = ''HTTP GET'' # ''URL https://a.com/x'' # [''QUERY {}'', ''HEADERS {}''] @ ''QUERY null'' # []
   \<and> http_section ''HTTP GET'' = Inr ''GET''
   \<and> url_section ''URL https://a.com/x'' = Inr ''https://a.com/x''
   \<and> forEach_rest JSON_parse_sample encodeURIComponent_sample [''QUERY {}'', ''HEADERS {}'']
         (initial_locals ''https://a.com/x'')
       = Inr \<lparr>req = \<lparr>query = JObject [], body = JObject [], headers = JObject [],
                        fullUrl = ''https://a.com/x''\<rparr>,
              fullUrl_var = ''https://a.com/x'', processedSections = {''HEADERS'', ''QUERY''}\<rparr>
   \<and> keyword_of ''QUERY null'' \<in> keyword_of ` set [''QUERY {}'', ''HEADERS {}'']
   \<and> \<not> consecutiveSpaces ''QUERY null''
   \<and> compile JSON_parse_sample encodeURIComponent_sample
        (Str ''[HTTP GET | URL https://a.com/x | QUERY {} | HEADERS {} | QUERY null]'')
       = Inl (AppError DUPLICATE_SECTION 400)"
proof -
  let ?s = "''[HTTP GET | URL https://a.com/x | QUERY {} | HEADERS {} | QUERY null]''"
  let ?st = "\<lparr>req = \<lparr>query = JObject [], body = JObject [], headers = JObject [],
                        fullUrl = ''https://a.com/x''\<rparr>,
              fullUrl_var = ''https://a.com/x'', processedSections = {''HEADERS'', ''QUERY''}\<rparr>"
  have a: "startsWith ''['' ?s" "endsWith '']'' ?s"
    "\<not> pipeSpacingError (reqlineContent_of ?s)"
    "split_pipe (reqlineContent_of ?s)
       = ''HTTP GET'' # ''URL https://a.com/x'' # [''QUERY {}'', ''HEADERS {}''] @ ''QUERY null'' # []"
    "http_section ''HTTP GET'' = Inr ''GET''"
    "url_section ''URL https://a.com/x'' = Inr ''https://a.com/x''"
    "keyword_of ''QUERY null'' \<in> keyword_of ` set [''QUERY {}'', ''HEADERS {}'']"
    "\<not> consecutiveSpaces ''QUERY null''"
    by code_simp+
  have b: "forEach_rest JSON_parse_sample encodeURIComponent_sample [''QUERY {}'', ''HEADERS {}'']
         (initial_locals ''https://a.com/x'') = Inr ?st"
    by code_simp
  from a b
    duplicate_section_rejected [of ?s "''HTTP GET''" "''URL https://a.com/x''"
      "[''QUERY {}'', ''HEADERS {}'']" "''QUERY null''" "[]" "''GET''" "''https://a.com/x''"
      JSON_parse_sample encodeURIComponent_sample ?st]
  show ?thesis by blast
qed

text \<open>
  The claim as it was stated fails: with an unknown keyword between the two QUERY
  sections the error is that of the unknown keyword, and it is \<open>DUPLICATE_SECTION\<close> only
  when the unknown keyword comes after them.
\<close>

theorem duplicate_section_counterexample:
  "split_pipe (reqlineContent_of ''[HTTP GET | URL https://a.com/x | QUERY {} | FOO 1 | QUERY {}]'')
     = [''HTTP GET'', ''URL https://a.com/x'', ''QUERY {}'', ''FOO 1'', ''QUERY {}'']
   \<and> keyword_of ''QUERY {}'' = ''QUERY''
   \<and> compile JSON_parse_sample encodeURIComponent_sample
        (Str ''[HTTP GET | URL https://a.com/x | QUERY {} | FOO 1 | QUERY {}]'')
       = Inl (AppError INVALID_KEYWORD 400)
   \<and> compile JSON_parse_sample encodeURIComponent_sample
        (Str ''[HTTP GET | URL https://a.com/x | QUERY {} | QUERY {} | FOO 1]'')
       = Inl (AppError DUPLICATE_SECTION 400)"
  by code_simp

section \<open>Spacing around a pipe\<close>

text \<open>
  Claim C5. Let a string start with \<open>[\<close> and end with \<open>]\<close>, and let its interior, the text
  between the two brackets, hold a pipe at index \<open>p\<close>. When the number of spaces that
  stand right before this pipe, or the number of spaces that stand right after it, is not
  one (none, or two and more), the result is the error \<open>INVALID_SPACING_AROUND_PIPE\<close> with
  status 400. An interior with a pipe is not empty once trimmed. The error is the result
  whatever the split of the text would give: the check comes before the split, so no
  error of the sections, such as too few sections, is reported in its place.
\<close>

theorem pipe_spacing_reported_first:
  "startsWith ''['' s \<and> endsWith '']'' s
   \<and> p < length (slice_inner s) \<and> slice_inner s ! p = CHR ''|''
   \<and> (length (takeWhile (\<lambda>c. c = CHR '' '') (rev (take p (slice_inner s)))) \<noteq> 1
       \<or> length (takeWhile (\<lambda>c. c = CHR '' '') (drop (Suc p) (slice_inner s))) \<noteq> 1) \<longrightarrow>
   compile jp enc (Str s) = Inl (AppError INVALID_SPACING_AROUND_PIPE 400)"
proof (rule impI)
  assume a: "startsWith ''['' s \<and> endsWith '']'' s
   \<and> p < length (slice_inner s) \<and> slice_inner s ! p = CHR ''|''
   \<and> (length (takeWhile (\<lambda>c. c = CHR '' '') (rev (take p (slice_inner s)))) \<noteq> 1
       \<or> length (takeWhile (\<lambda>c. c = CHR '' '') (drop (Suc p) (slice_inner s))) \<noteq> 1)"
  then have i: "slice_inner s = take p (slice_inner s) @ CHR ''|'' # drop (Suc p) (slice_inner s)"
    by (metis id_take_nth_drop)
  from a have bad: "length (takeWhile (\<lambda>c. c = CHR '' '') (rev (take p (slice_inner s)))) \<noteq> 1
       \<or> length (takeWhile (\<lambda>c. c = CHR '' '') (drop (Suc p) (slice_inner s))) \<noteq> 1"
    by blast
  from misplaced_pipe_error [OF i bad]
  have c: "reqlineContent_of s \<noteq> []" "pipeSpacingError (reqlineContent_of s)"
    by (simp_all add: reqlineContent_of_def)
  from a have "s \<noteq> []" by (auto simp: startsWith_def)
  with a c show "compile jp enc (Str s) = Inl (AppError INVALID_SPACING_AROUND_PIPE 400)"
    by (simp add: compile_def throwAppError_def)
qed

theorem pipe_spacing_reported_first_witness:
  "startsWith ''['' ''[HTTP GET|URL https://a.com/x]''
   \<and> endsWith '']'' ''[HTTP GET|URL https://a.com/x]''
   \<and> (8::nat) < length (slice_inner ''[HTTP GET|URL https://a.com/x]'')
   \<and> slice_inner ''[HTTP GET|URL https://a.com/x]'' ! 8 = CHR ''|''
   \<and> length (takeWhile (\<lambda>c. c = CHR '' '')
         (rev (take 8 (slice_inner ''[HTTP GET|URL https://a.com/x]'')))) = 0
   \<and> split_pipe (reqlineContent_of ''[HTTP GET|URL https://a.com/x]'')
       = [''HTTP GET|URL https://a.com/x'']
   \<and> compile JSON_parse_sample encodeURIComponent_sample (Str ''[HTTP GET|URL https://a.com/x]'')
       = Inl (AppError INVALID_SPACING_AROUND_PIPE 400)"
proof -
  let ?s = "''[HTTP GET|URL https://a.com/x]''"
  have a: "startsWith ''['' ?s" "endsWith '']'' ?s" "(8::nat) < length (slice_inner ?s)"
    "slice_inner ?s ! 8 = CHR ''|''"
    "length (takeWhile (\<lambda>c. c = CHR '' '') (rev (take 8 (slice_inner ?s)))) = 0"
    "split_pipe (reqlineContent_of ?s) = [''HTTP GET|URL https://a.com/x'']"
    by code_simp+
  from a pipe_spacing_reported_first [of ?s 8 JSON_parse_sample encodeURIComponent_sample]
  show ?thesis by simp
qed

section \<open>Lines with the HTTP and URL sections only\<close>

text \<open>
  Claim C1, as amended. For every line \<open>[HTTP M | URL U]\<close> where \<open>M\<close> is \<open>GET\<close> or \<open>POST\<close> and
  \<open>U\<close> starts with \<open>http://\<close> or \<open>https://\<close>, is longer than 8, holds no space and no pipe
  and does not end with a white space character, the run succeeds with the method \<open>M\<close>,
  with \<open>query\<close>, \<open>body\<close> and \<open>headers\<close> the empty object and with \<open>fullUrl = U\<close>.
\<close>

theorem two_section_line_accepted:
  "(M = ''GET'' \<or> M = ''POST'')
   \<and> (startsWith ''http://'' U \<or> startsWith ''https://'' U) \<and> length U > 8
   \<and> CHR '' '' \<notin> set U \<and> CHR ''|'' \<notin> set U \<and> \<not> isWhiteSpace (last U) \<longrightarrow>
   compile jp enc (Str (''[HTTP '' @ M @ '' | URL '' @ U @ '']''))
     = Inr (M, \<lparr>query = JObject [], body = JObject [], headers = JObject [], fullUrl = U\<rparr>)"
  using compile_two_sections [of M U jp enc] by blast

theorem two_section_line_accepted_witness:
  "startsWith ''https://'' ''https://a.com/x'' \<and> length ''https://a.com/x'' > 8
   \<and> CHR '' '' \<notin> set ''https://a.com/x'' \<and> CHR ''|'' \<notin> set ''https://a.com/x''
   \<and> \<not> isWhiteSpace (last ''https://a.com/x'')
   \<and> compile JSON_parse_sample encodeURIComponent_sample
        (Str (''[HTTP '' @ ''POST'' @ '' | URL '' @ ''https://a.com/x'' @ '']''))
       = Inr (''POST'', \<lparr>query = JObject [], body = JObject [], headers = JObject [],
                         fullUrl = ''https://a.com/x''\<rparr>)"
proof -
  have a: "startsWith ''https://'' ''https://a.com/x''" "length ''https://a.com/x'' > 8"
    "CHR '' '' \<notin> set ''https://a.com/x''" "CHR ''|'' \<notin> set ''https://a.com/x''"
    "\<not> isWhiteSpace (last ''https://a.com/x'')"
    by code_simp+
  from a two_section_line_accepted [of "''POST''" "''https://a.com/x''"
      JSON_parse_sample encodeURIComponent_sample]
  show ?thesis by blast
qed

text \<open>
  The claim as it was stated, for every \<open>U\<close> with the prefix and the length, fails: a
  space in \<open>U\<close> and a pipe in \<open>U\<close> are errors, and a tab at the end of \<open>U\<close> is trimmed away,
  so that \<open>fullUrl\<close> is not \<open>U\<close>.
\<close>

theorem two_section_line_counterexample:
  "startsWith ''https://'' ''https://a b'' \<and> length ''https://a b'' > 8
   \<and> compile JSON_parse_sample encodeURIComponent_sample
        (Str (''[HTTP '' @ ''GET'' @ '' | URL '' @ ''https://a b'' @ '']''))
       = Inl (AppError MULTIPLE_SPACES_FOUND 400)
   \<and> startsWith ''https://'' ''https://a|b'' \<and> length ''https://a|b'' > 8
   \<and> compile JSON_parse_sample encodeURIComponent_sample
        (Str (''[HTTP '' @ ''GET'' @ '' | URL '' @ ''https://a|b'' @ '']''))
       = Inl (AppError INVALID_SPACING_AROUND_PIPE 400)
   \<and> startsWith ''https://'' (''https://a.com/x'' @ [CHR 0x09])
   \<and> length (''https://a.com/x'' @ [CHR 0x09]) > 8
   \<and> compile JSON_parse_sample encodeURIComponent_sample
        (Str (''[HTTP '' @ ''GET'' @ '' | URL '' @ (''https://a.com/x'' @ [CHR 0x09]) @ '']''))
       = Inr (''GET'', \<lparr>query = JObject [], body = JObject [], headers = JObject [],
                        fullUrl = ''https://a.com/x''\<rparr>)
   \<and> ''https://a.com/x'' \<noteq> ''https://a.com/x'' @ [CHR 0x09]"
  by code_simp

section \<open>Parsing \<open>fullUrl\<close> again\<close>

text \<open>
  Claim C7, as amended. Let a run succeed with \<open>fullUrl = F\<close>, where \<open>F\<close> holds no space
  and no pipe and does not end with a white space character. Then the line
  \<open>[HTTP GET | URL F]\<close> is accepted with \<open>fullUrl = F\<close> and with \<open>query\<close>, \<open>body\<close> and
  \<open>headers\<close> the empty object: nothing is appended to \<open>F\<close> again.
\<close>

theorem reparse_fullUrl:
  "compile jp enc (Str s) = Inr (m, r)
   \<and> CHR '' '' \<notin> set (fullUrl r) \<and> CHR ''|'' \<notin> set (fullUrl r)
   \<and> \<not> isWhiteSpace (last (fullUrl r)) \<longrightarrow>
   compile jp enc (Str (''[HTTP GET | URL '' @ fullUrl r @ '']''))
     = Inr (''GET'', \<lparr>query = JObject [], body = JObject [], headers = JObject [],
                      fullUrl = fullUrl r\<rparr>)"
proof (rule impI)
  assume a: "compile jp enc (Str s) = Inr (m, r)
   \<and> CHR '' '' \<notin> set (fullUrl r) \<and> CHR ''|'' \<notin> set (fullUrl r)
   \<and> \<not> isWhiteSpace (last (fullUrl r))"
  then have c: "compile jp enc (Str s) = Inr (m, r)" by simp
  from compile_fullUrl_shape [OF c]
  have "startsWith ''http://'' (fullUrl r) \<or> startsWith ''https://'' (fullUrl r)"
    and "length (fullUrl r) > 8"
    by simp_all
  with a compile_two_sections [of "''GET''" "fullUrl r" jp enc]
  show "compile jp enc (Str (''[HTTP GET | URL '' @ fullUrl r @ '']''))
     = Inr (''GET'', \<lparr>query = JObject [], body = JObject [], headers = JObject [],
                      fullUrl = fullUrl r\<rparr>)"
    by simp
qed

theorem reparse_fullUrl_witness:
  \<open>compile JSON_parse_sample encodeURIComponent_sample
      (Str ''[HTTP GET | URL https://api.test/x | QUERY {"a":"b c"}]'')
     = Inr (''GET'', \<lparr>query = JObject [(''a'', JString ''b c'')], body = JObject [],
                      headers = JObject [], fullUrl = ''https://api.test/x?a=b%20c''\<rparr>)
   \<and> CHR '' '' \<notin> set ''https://api.test/x?a=b%20c''
   \<and> CHR ''|'' \<notin> set ''https://api.test/x?a=b%20c''
   \<and> \<not> isWhiteSpace (last ''https://api.test/x?a=b%20c'')
   \<and> compile JSON_parse_sample encodeURIComponent_sample
        (Str (''[HTTP GET | URL '' @ ''https://api.test/x?a=b%20c'' @ '']''))
       = Inr (''GET'', \<lparr>query = JObject [], body = JObject [], headers = JObject [],
                        fullUrl = ''https://api.test/x?a=b%20c''\<rparr>)\<close>
proof -
  let ?r = \<open>\<lparr>query = JObject [(''a'', JString ''b c'')], body = JObject [],
                      headers = JObject [], fullUrl = ''https://api.test/x?a=b%20c''\<rparr>\<close>
  have c: \<open>compile JSON_parse_sample encodeURIComponent_sample
      (Str ''[HTTP GET | URL https://api.test/x | QUERY {"a":"b c"}]'') = Inr (''GET'', ?r)\<close>
    by code_simp
  have f: "CHR '' '' \<notin> set ''https://api.test/x?a=b%20c''"
    "CHR ''|'' \<notin> set ''https://api.test/x?a=b%20c''"
    "\<not> isWhiteSpace (last ''https://api.test/x?a=b%20c'')"
    by code_simp+
  from c f reparse_fullUrl [of JSON_parse_sample encodeURIComponent_sample
      \<open>''[HTTP GET | URL https://api.test/x | QUERY {"a":"b c"}]''\<close> "''GET''" ?r]
  show ?thesis by simp
qed

text \<open>
  The claim as it was stated, for every successful run, fails: a key with a space gives
  a \<open>fullUrl\<close> with a space, which the URL section does not accept.
\<close>

theorem reparse_fullUrl_counterexample:
  \<open>compile JSON_parse_sample encodeURIComponent_sample
      (Str ''[HTTP GET | URL https://a.com/x | QUERY {"x y":"2"}]'')
     = Inr (''GET'', \<lparr>query = JObject [(''x y'', JString ''2'')], body = JObject [],
                      headers = JObject [], fullUrl = ''https://a.com/x?x y=2''\<rparr>)
   \<and> compile JSON_parse_sample encodeURIComponent_sample
        (Str (''[HTTP GET | URL '' @ ''https://a.com/x?x y=2'' @ '']''))
       = Inl (AppError MULTIPLE_SPACES_FOUND 400)\<close>
  by code_simp

section \<open>Order of the optional sections\<close>

text \<open>
  Claim C4. Take two strings in brackets whose sections, the parts of the trimmed
  interior between the separators, are the same HTTP and URL sections followed by the
  same optional sections in a different order. If one of them is accepted, so is the
  other, with the same method and the same \<open>request\<close>: the same \<open>query\<close>, \<open>body\<close>,
  \<open>headers\<close> and \<open>fullUrl\<close>. The statement is the same with the two strings exchanged.
\<close>

theorem optional_sections_order_independent:
  "startsWith ''['' s1 \<and> endsWith '']'' s1 \<and> startsWith ''['' s2 \<and> endsWith '']'' s2
   \<and> split_pipe (reqlineContent_of s1) = h # u # rest1
   \<and> split_pipe (reqlineContent_of s2) = h # u # rest2
   \<and> mset rest1 = mset rest2 \<longrightarrow>
   (compile jp enc (Str s1) = Inr res \<longleftrightarrow> compile jp enc (Str s2) = Inr res)"
proof (rule impI)
  assume a: "startsWith ''['' s1 \<and> endsWith '']'' s1 \<and> startsWith ''['' s2 \<and> endsWith '']'' s2
   \<and> split_pipe (reqlineContent_of s1) = h # u # rest1
   \<and> split_pipe (reqlineContent_of s2) = h # u # rest2
   \<and> mset rest1 = mset rest2"
  show "compile jp enc (Str s1) = Inr res \<longleftrightarrow> compile jp enc (Str s2) = Inr res"
  proof
    assume "compile jp enc (Str s1) = Inr res"
    with a show "compile jp enc (Str s2) = Inr res"
      by (intro compile_reordered [of s2 s1 h u rest1 rest2]) simp_all
  next
    assume "compile jp enc (Str s2) = Inr res"
    with a show "compile jp enc (Str s1) = Inr res"
      by (intro compile_reordered [of s1 s2 h u rest2 rest1]) simp_all
  qed
qed

theorem optional_sections_order_independent_witness:
  \<open>startsWith ''['' ''[HTTP GET | URL https://a.com/x | QUERY {"a":"1"} | HEADERS {"h":"1"}]''
   \<and> endsWith '']'' ''[HTTP GET | URL https://a.com/x | QUERY {"a":"1"} | HEADERS {"h":"1"}]''
   \<and> startsWith ''['' ''[HTTP GET | URL https://a.com/x | HEADERS {"h":"1"} | QUERY {"a":"1"}]''
   \<and> endsWith '']'' ''[HTTP GET | URL https://a.com/x | HEADERS {"h":"1"} | QUERY {"a":"1"}]''
   \<and> split_pipe (reqlineContent_of
         ''[HTTP GET | URL https://a.com/x | QUERY {"a":"1"} | HEADERS {"h":"1"}]'')
       = ''HTTP GET'' # ''URL https://a.com/x'' # [''QUERY {"a":"1"}'', ''HEADERS {"h":"1"}'']
   \<and> split_pipe (reqlineContent_of
         ''[HTTP GET | URL https://a.com/x | HEADERS {"h":"1"} | QUERY {"a":"1"}]'')
       = ''HTTP GET'' # ''URL https://a.com/x'' # [''HEADERS {"h":"1"}'', ''QUERY {"a":"1"}'']
   \<and> mset [''QUERY {"a":"1"}'', ''HEADERS {"h":"1"}'']
       = mset [''HEADERS {"h":"1"}'', ''QUERY {"a":"1"}'']
   \<and> compile JSON_parse_sample encodeURIComponent_sample
        (Str ''[HTTP GET | URL https://a.com/x | QUERY {"a":"1"} | HEADERS {"h":"1"}]'')
       = Inr (''GET'', \<lparr>query = JObject [(''a'', JString ''1'')], body = JObject [],
                        headers = JObject [(''h'', JString ''1'')],
                        fullUrl = ''https://a.com/x?a=1''\<rparr>)
   \<and> compile JSON_parse_sample encodeURIComponent_sample
        (Str ''[HTTP GET | URL https://a.com/x | HEADERS {"h":"1"} | QUERY {"a":"1"}]'')
       = Inr (''GET'', \<lparr>query = JObject [(''a'', JString ''1'')], body = JObject [],
                        headers = JObject [(''h'', JString ''1'')],
                        fullUrl = ''https://a.com/x?a=1''\<rparr>)\<close>
proof -
  let ?s1 = \<open>''[HTTP GET | URL https://a.com/x | QUERY {"a":"1"} | HEADERS {"h":"1"}]''\<close>
  let ?s2 = \<open>''[HTTP GET | URL https://a.com/x | HEADERS {"h":"1"} | QUERY {"a":"1"}]''\<close>
  let ?res = \<open>(''GET'', \<lparr>query = JObject [(''a'', JString ''1'')], body = JObject [],
                        headers = JObject [(''h'', JString ''1'')],
                        fullUrl = ''https://a.com/x?a=1''\<rparr>)\<close>
  have a: "startsWith ''['' ?s1" "endsWith '']'' ?s1" "startsWith ''['' ?s2" "endsWith '']'' ?s2"
    \<open>split_pipe (reqlineContent_of ?s1)
       = ''HTTP GET'' # ''URL https://a.com/x'' # [''QUERY {"a":"1"}'', ''HEADERS {"h":"1"}'']\<close>
    \<open>split_pipe (reqlineContent_of ?s2)
       = ''HTTP GET'' # ''URL https://a.com/x'' # [''HEADERS {"h":"1"}'', ''QUERY {"a":"1"}'']\<close>
    by code_simp+
  have m: \<open>mset [''QUERY {"a":"1"}'', ''HEADERS {"h":"1"}'']
       = mset [''HEADERS {"h":"1"}'', ''QUERY {"a":"1"}'']\<close>
    by (simp add: add_mset_commute)
  have c: "compile JSON_parse_sample encodeURIComponent_sample (Str ?s1) = Inr ?res"
    by code_simp
  from a m c
    optional_sections_order_independent [of ?s1 ?s2 "''HTTP GET''" "''URL https://a.com/x''"
      \<open>[''QUERY {"a":"1"}'', ''HEADERS {"h":"1"}'']\<close> \<open>[''HEADERS {"h":"1"}'', ''QUERY {"a":"1"}'']\<close>
      JSON_parse_sample encodeURIComponent_sample ?res]
  show ?thesis by simp
qed

end
